theory Spec2Isabelle
  imports Main "HOL-Library.Word" "HOL-Library.Monad_Syntax" "HOL-Library.Multiset"
begin

unbundle bit_operations_syntax

section \<open>adlist.c: a generic doubly linked list\<close>

subsection \<open>Data model\<close>

text \<open>
  Pointers and \<open>unsigned long\<close> are 64-bit machine words (LP64); the null pointer is the
  word 0. Signed \<open>long\<close> values are the same words read in two's complement.
\<close>

type_synonym ptr = "64 word"

abbreviation NULL :: ptr where
  "NULL \<equiv> 0"

text \<open>
  Modelled from the spec: \<open>adlist.h\<close> (the declarations of \<open>listNode\<close>, \<open>list\<close>,
  \<open>listIter\<close>, the macro \<open>listLength\<close> and the direction constants) is not among the
  sources. The records follow section 3 of the specification and the field accesses of
  \<open>adlist.c\<close>. A stored value is an opaque \<open>void *\<close>.
\<close>

record listNode =
  node_prev :: ptr
  node_next :: ptr
  node_value :: ptr

text \<open>
  The three hooks are function pointers supplied by the caller; a null hook is \<open>None\<close>.
  What they read and write lies outside the list (the values' own memory), which is
  the state \<open>'w\<close>: \<open>dup\<close> returns a copy (null when it fails), \<open>free\<close> destroys a value,
  \<open>match\<close> compares a value with a key and returns a C truth value.
\<close>

record 'w adlist =
  head :: ptr
  tail :: ptr
  dup :: "(ptr \<Rightarrow> 'w \<Rightarrow> ptr \<times> 'w) option"
  free :: "(ptr \<Rightarrow> 'w \<Rightarrow> 'w) option"
  match :: "(ptr \<Rightarrow> ptr \<Rightarrow> 'w \<Rightarrow> 32 word) option"
  len :: "64 word"

record listIter =
  iter_next :: ptr
  direction :: "32 word"

text \<open>
  Modelled from the spec: the direction constants of \<open>adlist.h\<close>; the comment above
  \<open>listGetIterator\<close> gives 0 for a traversal from the head and 1 from the tail.
\<close>

definition AL_START_HEAD :: "32 word" where
  "AL_START_HEAD = 0"

definition AL_START_TAIL :: "32 word" where
  "AL_START_TAIL = 1"

text \<open>
  The memory: the allocated nodes and list records by address, the state of the values
  that the hooks act on, and the results that the coming calls of \<open>zmalloc\<close> will
  return, in order (a null entry, or none left, is a failed allocation).
\<close>

record 'w heap =
  nodes :: "ptr \<Rightarrow> listNode option"
  lists :: "ptr \<Rightarrow> 'w adlist option"
  world :: 'w
  zmalloc_results :: "ptr list"

subsection \<open>Memory access\<close>

text \<open>
  Every operation returns an \<open>option\<close>: \<open>None\<close> is undefined behaviour of the C program
  (a read or write through a null or dangling pointer, freeing what is not allocated).
\<close>

definition zmalloc :: "'w heap \<Rightarrow> ptr \<times> 'w heap" where
  "zmalloc s = (case zmalloc_results s of
                  [] \<Rightarrow> (NULL, s)
                | p # ps \<Rightarrow> (p, s\<lparr>zmalloc_results := ps\<rparr>))"

text \<open>
  A fresh node or list record; C leaves its contents indeterminate, and every field
  is assigned by the caller before it is read.
\<close>

definition new_node :: "ptr \<Rightarrow> 'w heap \<Rightarrow> 'w heap" where
  "new_node p s =
     s\<lparr>nodes := (nodes s)(p \<mapsto> \<lparr>node_prev = NULL, node_next = NULL, node_value = NULL\<rparr>)\<rparr>"

definition new_list :: "ptr \<Rightarrow> 'w heap \<Rightarrow> 'w heap" where
  "new_list p s =
     s\<lparr>lists := (lists s)(p \<mapsto> \<lparr>head = NULL, tail = NULL, dup = None, free = None,
                                 match = None, len = 0\<rparr>)\<rparr>"

definition node_at :: "'w heap \<Rightarrow> ptr \<Rightarrow> listNode option" where
  "node_at s p = (if p = NULL then None else nodes s p)"

definition list_at :: "'w heap \<Rightarrow> ptr \<Rightarrow> 'w adlist option" where
  "list_at s p = (if p = NULL then None else lists s p)"

definition upd_node :: "ptr \<Rightarrow> (listNode \<Rightarrow> listNode) \<Rightarrow> 'w heap \<Rightarrow> 'w heap option" where
  "upd_node p f s =
     (case node_at s p of
        None \<Rightarrow> None
      | Some n \<Rightarrow> Some (s\<lparr>nodes := (nodes s)(p \<mapsto> f n)\<rparr>))"

definition upd_list :: "ptr \<Rightarrow> ('w adlist \<Rightarrow> 'w adlist) \<Rightarrow> 'w heap \<Rightarrow> 'w heap option" where
  "upd_list p f s =
     (case list_at s p of
        None \<Rightarrow> None
      | Some l \<Rightarrow> Some (s\<lparr>lists := (lists s)(p \<mapsto> f l)\<rparr>))"

definition zfree_node :: "ptr \<Rightarrow> 'w heap \<Rightarrow> 'w heap option" where
  "zfree_node p s =
     (case node_at s p of
        None \<Rightarrow> None
      | Some n \<Rightarrow> Some (s\<lparr>nodes := (nodes s)(p := None)\<rparr>))"

definition zfree_list :: "ptr \<Rightarrow> 'w heap \<Rightarrow> 'w heap option" where
  "zfree_list p s =
     (case list_at s p of
        None \<Rightarrow> None
      | Some l \<Rightarrow> Some (s\<lparr>lists := (lists s)(p := None)\<rparr>))"

text \<open>The call \<open>list->free(value)\<close> guarded by \<open>if (list->free)\<close>.\<close>

definition call_free :: "'w adlist \<Rightarrow> ptr \<Rightarrow> 'w heap \<Rightarrow> 'w heap" where
  "call_free l v s = (case free l of None \<Rightarrow> s | Some f \<Rightarrow> s\<lparr>world := f v (world s)\<rparr>)"

subsection \<open>The operations of adlist.c\<close>

definition listCreate :: "'w heap \<Rightarrow> (ptr \<times> 'w heap) option" where
  "listCreate s0 =
     (case zmalloc s0 of (list, s) \<Rightarrow>
        if list = NULL then Some (NULL, s)
        else do {
          s \<leftarrow> Some (new_list list s);
          s \<leftarrow> upd_list list (\<lambda>l. l\<lparr>head := NULL, tail := NULL\<rparr>) s;
          s \<leftarrow> upd_list list (\<lambda>l. l\<lparr>len := 0\<rparr>) s;
          s \<leftarrow> upd_list list (\<lambda>l. l\<lparr>dup := None\<rparr>) s;
          s \<leftarrow> upd_list list (\<lambda>l. l\<lparr>free := None\<rparr>) s;
          s \<leftarrow> upd_list list (\<lambda>l. l\<lparr>match := None\<rparr>) s;
          Some (list, s)
        })"

function listEmpty_loop :: "ptr \<Rightarrow> 64 word \<Rightarrow> ptr \<Rightarrow> 'w heap \<Rightarrow> 'w heap option" where
  "listEmpty_loop list n current s =
     (if n \<noteq> 0 then do {
        c \<leftarrow> node_at s current;
        l \<leftarrow> list_at s list;
        s \<leftarrow> Some (call_free l (node_value c) s);
        s \<leftarrow> zfree_node current s;
        listEmpty_loop list (n - 1) (node_next c) s
      } else Some s)"
  by pat_completeness auto
termination
  by (relation "measure (\<lambda>(list, n, current, s). unat n)")
     (auto simp: unat_minus_one unat_gt_0)

declare listEmpty_loop.simps [simp del]

definition listEmpty :: "ptr \<Rightarrow> 'w heap \<Rightarrow> 'w heap option" where
  "listEmpty list s = do {
     l \<leftarrow> list_at s list;
     s \<leftarrow> listEmpty_loop list (len l) (head l) s;
     s \<leftarrow> upd_list list (\<lambda>l. l\<lparr>head := NULL, tail := NULL\<rparr>) s;
     upd_list list (\<lambda>l. l\<lparr>len := 0\<rparr>) s
   }"

definition listRelease :: "ptr \<Rightarrow> 'w heap \<Rightarrow> 'w heap option" where
  "listRelease list s = do {
     s \<leftarrow> listEmpty list s;
     zfree_list list s
   }"

definition listAddNodeHead :: "ptr \<Rightarrow> ptr \<Rightarrow> 'w heap \<Rightarrow> (ptr \<times> 'w heap) option" where
  "listAddNodeHead list v s0 =
     (case zmalloc s0 of (node, s) \<Rightarrow>
        if node = NULL then Some (NULL, s)
        else do {
          s \<leftarrow> Some (new_node node s);
          s \<leftarrow> upd_node node (\<lambda>n. n\<lparr>node_value := v\<rparr>) s;
          l \<leftarrow> list_at s list;
          s \<leftarrow> (if len l = 0 then do {
                  s \<leftarrow> upd_list list (\<lambda>l. l\<lparr>head := node, tail := node\<rparr>) s;
                  upd_node node (\<lambda>n. n\<lparr>node_prev := NULL, node_next := NULL\<rparr>) s
                } else do {
                  s \<leftarrow> upd_node node (\<lambda>n. n\<lparr>node_prev := NULL\<rparr>) s;
                  s \<leftarrow> upd_node node (\<lambda>n. n\<lparr>node_next := head l\<rparr>) s;
                  s \<leftarrow> upd_node (head l) (\<lambda>n. n\<lparr>node_prev := node\<rparr>) s;
                  upd_list list (\<lambda>l. l\<lparr>head := node\<rparr>) s
                });
          s \<leftarrow> upd_list list (\<lambda>l. l\<lparr>len := len l + 1\<rparr>) s;
          Some (list, s)
        })"

definition listAddNodeTail :: "ptr \<Rightarrow> ptr \<Rightarrow> 'w heap \<Rightarrow> (ptr \<times> 'w heap) option" where
  "listAddNodeTail list v s0 =
     (case zmalloc s0 of (node, s) \<Rightarrow>
        if node = NULL then Some (NULL, s)
        else do {
          s \<leftarrow> Some (new_node node s);
          s \<leftarrow> upd_node node (\<lambda>n. n\<lparr>node_value := v\<rparr>) s;
          l \<leftarrow> list_at s list;
          s \<leftarrow> (if len l = 0 then do {
                  s \<leftarrow> upd_list list (\<lambda>l. l\<lparr>head := node, tail := node\<rparr>) s;
                  upd_node node (\<lambda>n. n\<lparr>node_prev := NULL, node_next := NULL\<rparr>) s
                } else do {
                  s \<leftarrow> upd_node node (\<lambda>n. n\<lparr>node_prev := tail l\<rparr>) s;
                  s \<leftarrow> upd_node node (\<lambda>n. n\<lparr>node_next := NULL\<rparr>) s;
                  s \<leftarrow> upd_node (tail l) (\<lambda>n. n\<lparr>node_next := node\<rparr>) s;
                  upd_list list (\<lambda>l. l\<lparr>tail := node\<rparr>) s
                });
          s \<leftarrow> upd_list list (\<lambda>l. l\<lparr>len := len l + 1\<rparr>) s;
          Some (list, s)
        })"

definition listInsertNode ::
    "ptr \<Rightarrow> ptr \<Rightarrow> ptr \<Rightarrow> 32 word \<Rightarrow> 'w heap \<Rightarrow> (ptr \<times> 'w heap) option" where
  "listInsertNode list old_node v after s0 =
     (case zmalloc s0 of (node, s) \<Rightarrow>
        if node = NULL then Some (NULL, s)
        else do {
          s \<leftarrow> Some (new_node node s);
          s \<leftarrow> upd_node node (\<lambda>n. n\<lparr>node_value := v\<rparr>) s;
          s \<leftarrow> (if after \<noteq> 0 then do {
                  s \<leftarrow> upd_node node (\<lambda>n. n\<lparr>node_prev := old_node\<rparr>) s;
                  old \<leftarrow> node_at s old_node;
                  s \<leftarrow> upd_node node (\<lambda>n. n\<lparr>node_next := node_next old\<rparr>) s;
                  l \<leftarrow> list_at s list;
                  if tail l = old_node then upd_list list (\<lambda>l. l\<lparr>tail := node\<rparr>) s
                  else Some s
                } else do {
                  s \<leftarrow> upd_node node (\<lambda>n. n\<lparr>node_next := old_node\<rparr>) s;
                  old \<leftarrow> node_at s old_node;
                  s \<leftarrow> upd_node node (\<lambda>n. n\<lparr>node_prev := node_prev old\<rparr>) s;
                  l \<leftarrow> list_at s list;
                  if head l = old_node then upd_list list (\<lambda>l. l\<lparr>head := node\<rparr>) s
                  else Some s
                });
          n \<leftarrow> node_at s node;
          s \<leftarrow> (if node_prev n \<noteq> NULL
                then upd_node (node_prev n) (\<lambda>m. m\<lparr>node_next := node\<rparr>) s
                else Some s);
          n \<leftarrow> node_at s node;
          s \<leftarrow> (if node_next n \<noteq> NULL
                then upd_node (node_next n) (\<lambda>m. m\<lparr>node_prev := node\<rparr>) s
                else Some s);
          s \<leftarrow> upd_list list (\<lambda>l. l\<lparr>len := len l + 1\<rparr>) s;
          Some (list, s)
        })"

definition listDelNode :: "ptr \<Rightarrow> ptr \<Rightarrow> 'w heap \<Rightarrow> 'w heap option" where
  "listDelNode list node s = do {
     n \<leftarrow> node_at s node;
     s \<leftarrow> (if node_prev n \<noteq> NULL
           then upd_node (node_prev n) (\<lambda>m. m\<lparr>node_next := node_next n\<rparr>) s
           else upd_list list (\<lambda>l. l\<lparr>head := node_next n\<rparr>) s);
     n \<leftarrow> node_at s node;
     s \<leftarrow> (if node_next n \<noteq> NULL
           then upd_node (node_next n) (\<lambda>m. m\<lparr>node_prev := node_prev n\<rparr>) s
           else upd_list list (\<lambda>l. l\<lparr>tail := node_prev n\<rparr>) s);
     l \<leftarrow> list_at s list;
     n \<leftarrow> node_at s node;
     s \<leftarrow> Some (call_free l (node_value n) s);
     s \<leftarrow> zfree_node node s;
     upd_list list (\<lambda>l. l\<lparr>len := len l - 1\<rparr>) s
   }"

text \<open>
  Iterators are passed and returned by value: \<open>listDup\<close> and \<open>listSearchKey\<close> keep
  theirs on the stack. \<open>listGetIterator\<close> returns \<open>None\<close> for the null pointer of a
  failed allocation, and \<open>listReleaseIterator\<close> has nothing left to do on a value.
\<close>

definition listGetIterator ::
    "ptr \<Rightarrow> 32 word \<Rightarrow> 'w heap \<Rightarrow> (listIter option \<times> 'w heap) option" where
  "listGetIterator list dir s0 =
     (case zmalloc s0 of (iter, s) \<Rightarrow>
        if iter = NULL then Some (None, s)
        else do {
          l \<leftarrow> list_at s list;
          Some (Some \<lparr>iter_next = (if dir = AL_START_HEAD then head l else tail l),
                      direction = dir\<rparr>, s)
        })"

definition listReleaseIterator :: "listIter \<Rightarrow> 'w heap \<Rightarrow> 'w heap option" where
  "listReleaseIterator iter s = Some s"

definition listRewind :: "ptr \<Rightarrow> listIter \<Rightarrow> 'w heap \<Rightarrow> listIter option" where
  "listRewind list li s = do {
     l \<leftarrow> list_at s list;
     Some (li\<lparr>iter_next := head l, direction := AL_START_HEAD\<rparr>)
   }"

definition listRewindTail :: "ptr \<Rightarrow> listIter \<Rightarrow> 'w heap \<Rightarrow> listIter option" where
  "listRewindTail list li s = do {
     l \<leftarrow> list_at s list;
     Some (li\<lparr>iter_next := tail l, direction := AL_START_TAIL\<rparr>)
   }"

definition listNext :: "listIter \<Rightarrow> 'w heap \<Rightarrow> (ptr \<times> listIter) option" where
  "listNext iter s =
     (let current = iter_next iter in
      if current \<noteq> NULL then do {
        c \<leftarrow> node_at s current;
        Some (current,
              if direction iter = AL_START_HEAD then iter\<lparr>iter_next := node_next c\<rparr>
              else iter\<lparr>iter_next := node_prev c\<rparr>)
      } else Some (current, iter))"

text \<open>
  The loop of \<open>listDup\<close>. The value to store is computed first: the result of the
  \<open>dup\<close> hook when the copy has one, which ends the loop with a released copy when it
  is null, and the value of the source node otherwise. Each round that goes on has taken
  one result of \<open>zmalloc\<close>, so the loop ends on every heap, also on one whose \<open>next\<close>
  links form a cycle.
\<close>

function listDup_loop :: "ptr \<Rightarrow> listIter \<Rightarrow> 'w heap \<Rightarrow> (ptr \<times> 'w heap) option" where
  "listDup_loop copy iter s = do {
     (node, iter) \<leftarrow> listNext iter s;
     if node \<noteq> NULL then do {
       c \<leftarrow> list_at s copy;
       n \<leftarrow> node_at s node;
       (v, s) \<leftarrow> Some (case dup c of
                         Some d \<Rightarrow> (case d (node_value n) (world s) of
                                      (v, w) \<Rightarrow> (v, s\<lparr>world := w\<rparr>))
                       | None \<Rightarrow> (node_value n, s));
       if dup c \<noteq> None \<and> v = NULL then do {
         s \<leftarrow> listRelease copy s;
         Some (NULL, s)
       } else do {
         (r, s) \<leftarrow> listAddNodeTail copy v s;
         if r = NULL then do {
           s \<leftarrow> listRelease copy s;
           Some (NULL, s)
         } else listDup_loop copy iter s
       }
     } else Some (copy, s)
   }"
  by pat_completeness auto
termination
  by (relation "measure (\<lambda>(copy, iter, s). length (zmalloc_results s))")
     (auto simp: listAddNodeTail_def zmalloc_def upd_node_def upd_list_def new_node_def
           split: list.splits if_splits option.splits prod.splits Option.bind_splits)

declare listDup_loop.simps [simp del]

definition listDup :: "ptr \<Rightarrow> 'w heap \<Rightarrow> (ptr \<times> 'w heap) option" where
  "listDup orig s0 = do {
     (copy, s) \<leftarrow> listCreate s0;
     if copy = NULL then Some (NULL, s)
     else do {
       ol \<leftarrow> list_at s orig;
       s \<leftarrow> upd_list copy (\<lambda>l. l\<lparr>dup := dup ol\<rparr>) s;
       ol \<leftarrow> list_at s orig;
       s \<leftarrow> upd_list copy (\<lambda>l. l\<lparr>free := free ol\<rparr>) s;
       ol \<leftarrow> list_at s orig;
       s \<leftarrow> upd_list copy (\<lambda>l. l\<lparr>match := match ol\<rparr>) s;
       iter \<leftarrow> listRewind orig \<lparr>iter_next = NULL, direction = 0\<rparr> s;
       listDup_loop copy iter s
     }
   }"

text \<open>
  \<open>listIndex\<close>: the two loops \<open>while(index-- && n)\<close>. The negation of a negative
  \<open>long\<close> is taken in two's complement.
\<close>

function listIndex_prev :: "64 word \<Rightarrow> ptr \<Rightarrow> 'w heap \<Rightarrow> ptr option" where
  "listIndex_prev index n s =
     (if index \<noteq> 0 \<and> n \<noteq> NULL then do {
        c \<leftarrow> node_at s n;
        listIndex_prev (index - 1) (node_prev c) s
      } else Some n)"
  by pat_completeness auto
termination
  by (relation "measure (\<lambda>(index, n, s). unat index)")
     (auto simp: unat_minus_one unat_gt_0)

function listIndex_next :: "64 word \<Rightarrow> ptr \<Rightarrow> 'w heap \<Rightarrow> ptr option" where
  "listIndex_next index n s =
     (if index \<noteq> 0 \<and> n \<noteq> NULL then do {
        c \<leftarrow> node_at s n;
        listIndex_next (index - 1) (node_next c) s
      } else Some n)"
  by pat_completeness auto
termination
  by (relation "measure (\<lambda>(index, n, s). unat index)")
     (auto simp: unat_minus_one unat_gt_0)

declare listIndex_prev.simps [simp del]
declare listIndex_next.simps [simp del]

definition listIndex :: "ptr \<Rightarrow> 64 word \<Rightarrow> 'w heap \<Rightarrow> ptr option" where
  "listIndex list index s = do {
     l \<leftarrow> list_at s list;
     if index <s 0 then listIndex_prev ((- index) - 1) (tail l) s
     else listIndex_next index (head l) s
   }"

definition listRotate :: "ptr \<Rightarrow> 'w heap \<Rightarrow> 'w heap option" where
  "listRotate list s = do {
     l \<leftarrow> list_at s list;
     let tail0 = tail l in
     if len l \<le> 1 then Some s
     else do {
       t \<leftarrow> node_at s tail0;
       s \<leftarrow> upd_list list (\<lambda>l. l\<lparr>tail := node_prev t\<rparr>) s;
       l \<leftarrow> list_at s list;
       s \<leftarrow> upd_node (tail l) (\<lambda>n. n\<lparr>node_next := NULL\<rparr>) s;
       l \<leftarrow> list_at s list;
       s \<leftarrow> upd_node (head l) (\<lambda>n. n\<lparr>node_prev := tail0\<rparr>) s;
       s \<leftarrow> upd_node tail0 (\<lambda>n. n\<lparr>node_prev := NULL\<rparr>) s;
       l \<leftarrow> list_at s list;
       s \<leftarrow> upd_node tail0 (\<lambda>n. n\<lparr>node_next := head l\<rparr>) s;
       upd_list list (\<lambda>l. l\<lparr>head := tail0\<rparr>) s
     }
   }"

definition listJoin :: "ptr \<Rightarrow> ptr \<Rightarrow> 'w heap \<Rightarrow> 'w heap option" where
  "listJoin l other s = do {
     ol \<leftarrow> list_at s other;
     s \<leftarrow> (if head ol \<noteq> NULL then do {
             ll \<leftarrow> list_at s l;
             upd_node (head ol) (\<lambda>n. n\<lparr>node_prev := tail ll\<rparr>) s
           } else Some s);
     ll \<leftarrow> list_at s l;
     ol \<leftarrow> list_at s other;
     s \<leftarrow> (if tail ll \<noteq> NULL
           then upd_node (tail ll) (\<lambda>n. n\<lparr>node_next := head ol\<rparr>) s
           else upd_list l (\<lambda>x. x\<lparr>head := head ol\<rparr>) s);
     ol \<leftarrow> list_at s other;
     s \<leftarrow> (if tail ol \<noteq> NULL then upd_list l (\<lambda>x. x\<lparr>tail := tail ol\<rparr>) s else Some s);
     ol \<leftarrow> list_at s other;
     s \<leftarrow> upd_list l (\<lambda>x. x\<lparr>len := len x + len ol\<rparr>) s;
     s \<leftarrow> upd_list other (\<lambda>x. x\<lparr>head := NULL, tail := NULL\<rparr>) s;
     upd_list other (\<lambda>x. x\<lparr>len := 0\<rparr>) s
   }"

text \<open>
  The usage pattern given in the comment above \<open>listNext\<close>: call \<open>listNext\<close> until it
  returns the null pointer, here recording each node visited with its value. A heap
  with cyclic links would keep the loop running, so it is given a bound on the rounds;
  \<open>None\<close> also stands for a traversal that is not over within the bound.
\<close>

fun listVisit :: "nat \<Rightarrow> listIter \<Rightarrow> 'w heap \<Rightarrow> (ptr \<times> ptr) list option" where
  "listVisit 0 iter s = None"
| "listVisit (Suc k) iter s = do {
     (node, iter) \<leftarrow> listNext iter s;
     if node \<noteq> NULL then do {
       n \<leftarrow> node_at s node;
       rest \<leftarrow> listVisit k iter s;
       Some ((node, node_value n) # rest)
     } else Some []
   }"

subsection \<open>Well-formed lists\<close>

text \<open>
  A list on the heap is described by the sequence of its nodes from head to tail, each
  an address with the value stored there. \<open>dlseg h pv xs nx\<close>: the nodes \<open>xs\<close> are
  allocated and linked in this order, the first one's \<open>prev\<close> is \<open>pv\<close> and the last
  one's \<open>next\<close> is \<open>nx\<close>.
\<close>

definition first_or :: "ptr \<Rightarrow> (ptr \<times> ptr) list \<Rightarrow> ptr" where
  "first_or d xs = (case xs of [] \<Rightarrow> d | x # _ \<Rightarrow> fst x)"

definition last_or :: "ptr \<Rightarrow> (ptr \<times> ptr) list \<Rightarrow> ptr" where
  "last_or d xs = (if xs = [] then d else fst (last xs))"

fun dlseg :: "(ptr \<Rightarrow> listNode option) \<Rightarrow> ptr \<Rightarrow> (ptr \<times> ptr) list \<Rightarrow> ptr \<Rightarrow> bool" where
  "dlseg h pv [] nx = True"
| "dlseg h pv (x # xs) nx =
     (fst x \<noteq> NULL \<and>
      h (fst x) = Some \<lparr>node_prev = pv, node_next = first_or nx xs, node_value = snd x\<rparr> \<and>
      dlseg h (fst x) xs nx)"

text \<open>
  \<open>dll s list xs\<close>: the list record at \<open>list\<close> heads the null-terminated chain \<open>xs\<close> of
  distinct nodes, its \<open>tail\<close> is the last of them and its \<open>len\<close> their number.
\<close>

definition dll :: "'w heap \<Rightarrow> ptr \<Rightarrow> (ptr \<times> ptr) list \<Rightarrow> bool" where
  "dll s list xs =
     (case list_at s list of
        None \<Rightarrow> False
      | Some l \<Rightarrow>
          head l = first_or NULL xs \<and> tail l = last_or NULL xs \<and>
          unat (len l) = length xs \<and> distinct (map fst xs) \<and>
          dlseg (nodes s) NULL xs NULL)"

text \<open>
  The invariant as the specification words it: the length is 0 exactly when head and
  tail are both null, and 1 exactly when head and tail are the same node, whose
  \<open>prev\<close> and \<open>next\<close> are both null.
\<close>

definition list_invariant :: "'w heap \<Rightarrow> ptr \<Rightarrow> bool" where
  "list_invariant s list =
     (case list_at s list of
        None \<Rightarrow> False
      | Some l \<Rightarrow>
          ((len l = 0) = (head l = NULL \<and> tail l = NULL)) \<and>
          ((len l = 1) =
             (head l = tail l \<and>
              (case node_at s (head l) of
                 None \<Rightarrow> False
               | Some n \<Rightarrow> node_prev n = NULL \<and> node_next n = NULL))))"

text \<open>The three customization hooks of a list record.\<close>

definition hooks ::
    "'w adlist \<Rightarrow> (ptr \<Rightarrow> 'w \<Rightarrow> ptr \<times> 'w) option \<times> (ptr \<Rightarrow> 'w \<Rightarrow> 'w) option \<times>
       (ptr \<Rightarrow> ptr \<Rightarrow> 'w \<Rightarrow> 32 word) option" where
  "hooks l = (dup l, free l, match l)"

text \<open>
  What \<open>list->free\<close>, when set, does to the state of the values, for one value and for
  the values of a whole chain from head to tail.
\<close>

definition free_world :: "'w adlist \<Rightarrow> ptr \<Rightarrow> 'w \<Rightarrow> 'w" where
  "free_world l v w = (case free l of None \<Rightarrow> w | Some f \<Rightarrow> f v w)"

text \<open>
  What \<open>listDup\<close> stores when every allocation succeeds: the source values themselves
  without a \<open>dup\<close> hook, otherwise the results of the hook called on the values from
  head to tail, each call seeing the state left by the one before. \<open>None\<close> when the
  hook returns the null pointer for some value.
\<close>

fun dup_values ::
    "(ptr \<Rightarrow> 'w \<Rightarrow> ptr \<times> 'w) option \<Rightarrow> ptr list \<Rightarrow> 'w \<Rightarrow> (ptr list \<times> 'w) option" where
  "dup_values d [] w = Some ([], w)"
| "dup_values None (v # vs) w = do {
     (rs, w') \<leftarrow> dup_values None vs w;
     Some (v # rs, w')
   }"
| "dup_values (Some f) (v # vs) w =
     (case f v w of (v', w') \<Rightarrow>
        if v' = NULL then None
        else do {
          (rs, w'') \<leftarrow> dup_values (Some f) vs w';
          Some (v' # rs, w'')
        })"

text \<open>
  The addresses that \<open>zmalloc\<close> is going to return are not in use and are returned
  once each.
\<close>

definition fresh_results :: "'w heap \<Rightarrow> bool" where
  "fresh_results s =
     (distinct (filter (\<lambda>p. p \<noteq> NULL) (zmalloc_results s)) \<and>
      (\<forall>p \<in> set (zmalloc_results s). p \<noteq> NULL \<longrightarrow> nodes s p = None \<and> lists s p = None))"

text \<open>Calling \<open>listNext\<close> \<open>k\<close> times in a row, keeping what each call returned.\<close>

fun listNext_repeat :: "nat \<Rightarrow> listIter \<Rightarrow> 'w heap \<Rightarrow> (ptr list \<times> listIter) option" where
  "listNext_repeat 0 iter s = Some ([], iter)"
| "listNext_repeat (Suc k) iter s = do {
     (node, iter) \<leftarrow> listNext iter s;
     (rest, iter) \<leftarrow> listNext_repeat k iter s;
     Some (node # rest, iter)
   }"

subsection \<open>Example heaps\<close>

text \<open>
  The list at address 100 holds the values 10, 20, 30 in the nodes 1, 2, 3 and has no
  hooks; the values' state is not used.
\<close>

definition heap_abc :: "unit heap" where
  "heap_abc =
     \<lparr>nodes = [1 \<mapsto> \<lparr>node_prev = NULL, node_next = 2, node_value = 10\<rparr>,
               2 \<mapsto> \<lparr>node_prev = 1, node_next = 3, node_value = 20\<rparr>,
               3 \<mapsto> \<lparr>node_prev = 2, node_next = NULL, node_value = 30\<rparr>],
      lists = [100 \<mapsto> \<lparr>head = 1, tail = 3, dup = None, free = None, match = None,
                          len = 3\<rparr>],
      world = (),
      zmalloc_results = [4, 5]\<rparr>"

text \<open>
  The example of the specification for joining: the list at 100 is [1, 2], the list at 200
  is [3, 4] (nodes 11, 12 and 13, 14).
\<close>

definition heap_join :: "ptr list \<Rightarrow> unit heap" where
  "heap_join results =
     \<lparr>nodes = [11 \<mapsto> \<lparr>node_prev = NULL, node_next = 12, node_value = 1\<rparr>,
               12 \<mapsto> \<lparr>node_prev = 11, node_next = NULL, node_value = 2\<rparr>,
               13 \<mapsto> \<lparr>node_prev = NULL, node_next = 14, node_value = 3\<rparr>,
               14 \<mapsto> \<lparr>node_prev = 13, node_next = NULL, node_value = 4\<rparr>],
      lists = [100 \<mapsto> \<lparr>head = 11, tail = 12, dup = None, free = None, match = None,
                          len = 2\<rparr>,
               200 \<mapsto> \<lparr>head = 13, tail = 14, dup = None, free = None, match = None,
                          len = 2\<rparr>],
      world = (),
      zmalloc_results = results\<rparr>"

text \<open>
  A list with all three hooks. The values' state records the values destroyed so far.
  \<open>free_log\<close> destroys a value, \<open>dup_copy\<close> makes the copy of a value (at the
  address 1000 further on), \<open>dup_fail_20\<close> does the same but fails on the value 20, and
  \<open>match_eq\<close> compares the two pointers.
\<close>

definition free_log :: "ptr \<Rightarrow> ptr list \<Rightarrow> ptr list" where
  "free_log v w = w @ [v]"

definition dup_copy :: "ptr \<Rightarrow> ptr list \<Rightarrow> ptr \<times> ptr list" where
  "dup_copy v w = (v + 1000, w)"

definition dup_fail_20 :: "ptr \<Rightarrow> ptr list \<Rightarrow> ptr \<times> ptr list" where
  "dup_fail_20 v w = (if v = 20 then NULL else v + 1000, w)"

definition match_eq :: "ptr \<Rightarrow> ptr \<Rightarrow> ptr list \<Rightarrow> 32 word" where
  "match_eq v key w = (if v = key then 1 else 0)"

definition heap_hooks :: "(ptr \<Rightarrow> ptr list \<Rightarrow> ptr \<times> ptr list) \<Rightarrow> ptr list \<Rightarrow> ptr list heap" where
  "heap_hooks d results =
     \<lparr>nodes = [1 \<mapsto> \<lparr>node_prev = NULL, node_next = 2, node_value = 10\<rparr>,
               2 \<mapsto> \<lparr>node_prev = 1, node_next = 3, node_value = 20\<rparr>,
               3 \<mapsto> \<lparr>node_prev = 2, node_next = NULL, node_value = 30\<rparr>],
      lists = [100 \<mapsto> \<lparr>head = 1, tail = 3, dup = Some d, free = Some free_log,
                          match = Some match_eq, len = 3\<rparr>],
      world = [],
      zmalloc_results = results\<rparr>"

text \<open>The same list with a \<open>free\<close> hook but no \<open>dup\<close> hook.\<close>

definition heap_shallow :: "ptr list \<Rightarrow> ptr list heap" where
  "heap_shallow results =
     (heap_hooks dup_copy results)
       \<lparr>lists := [100 \<mapsto> \<lparr>head = 1, tail = 3, dup = None, free = Some free_log,
                            match = None, len = 3\<rparr>]\<rparr>"

section \<open>Properties\<close>

subsection \<open>Chains of nodes\<close>

lemma first_or_simps [simp]:
  "first_or d [] = d" "first_or d (x # xs) = fst x"
  by (simp_all add: first_or_def)

lemma last_or_simps [simp]:
  "last_or d [] = d"
  "last_or d (x # xs) = last_or (fst x) xs"
  by (simp_all add: last_or_def)

lemma first_or_append [simp]: "first_or d (xs @ ys) = first_or (first_or d ys) xs"
  by (cases xs) simp_all

lemma last_or_append [simp]: "last_or d (xs @ ys) = last_or (last_or d xs) ys"
  by (induction xs arbitrary: d) simp_all

lemma dlseg_append:
  "dlseg h pv (xs @ ys) nx =
     (dlseg h pv xs (first_or nx ys) \<and> dlseg h (last_or pv xs) ys nx)"
  by (induction xs arbitrary: pv) auto

lemma dlseg_nonnull: "dlseg h pv xs nx \<Longrightarrow> NULL \<notin> fst ` set xs"
  by (induction xs arbitrary: pv) auto

lemma dlseg_allocated: "dlseg h pv xs nx \<Longrightarrow> p \<in> fst ` set xs \<Longrightarrow> h p \<noteq> None"
  by (induction xs arbitrary: pv) auto

lemma dlseg_frame:
  "dlseg h pv xs nx \<Longrightarrow> (\<And>p. p \<in> fst ` set xs \<Longrightarrow> h' p = h p) \<Longrightarrow> dlseg h' pv xs nx"
  by (induction xs arbitrary: pv) auto

lemma dlseg_upd_other:
  "p \<notin> fst ` set xs \<Longrightarrow> dlseg (h(p := n)) pv xs nx = dlseg h pv xs nx"
  by (induction xs arbitrary: pv) auto

lemma ptr_chain_bound:
  assumes "distinct (map fst xs)" "NULL \<notin> fst ` set xs"
  shows "length (xs :: (ptr \<times> ptr) list) < 2 ^ 64"
proof -
  have "length xs = card (fst ` set xs)"
    using assms(1) by (metis distinct_card length_map set_map)
  also have "\<dots> \<le> card (UNIV - {NULL})"
    using assms(2) by (intro card_mono) auto
  also have "\<dots> = 2 ^ 64 - 1"
    by (simp add: card_Diff_singleton card_word)
  finally show ?thesis by simp
qed

lemma dll_D:
  assumes "dll s list xs"
  obtains l where "list \<noteq> NULL" "lists s list = Some l" "head l = first_or NULL xs"
    "tail l = last_or NULL xs" "unat (len l) = length xs" "distinct (map fst xs)"
    "dlseg (nodes s) NULL xs NULL"
  using assms by (auto simp: dll_def list_at_def split: option.splits if_splits)

lemma dll_I:
  assumes "list \<noteq> NULL" "lists s list = Some l" "head l = first_or NULL xs"
    "tail l = last_or NULL xs" "unat (len l) = length xs" "distinct (map fst xs)"
    "dlseg (nodes s) NULL xs NULL"
  shows "dll s list xs"
  using assms by (auto simp: dll_def list_at_def)

lemma len_zero_iff: "unat (n :: 64 word) = length xs \<Longrightarrow> (n = 0) = (xs = [])"
  by (auto simp: unat_eq_0)

lemma len_succ:
  assumes "unat (n :: 64 word) = length xs" "Suc (length xs) < 2 ^ 64"
  shows "unat (n + 1) = Suc (length xs)"
  using assms by (simp add: unat_word_ariths)

lemma last_or_mem: "xs \<noteq> [] \<Longrightarrow> last_or d xs \<in> fst ` set xs"
  by (simp add: last_or_def)

lemma first_or_mem: "xs \<noteq> [] \<Longrightarrow> first_or d xs \<in> fst ` set xs"
  by (cases xs) simp_all

lemmas exec_defs = zmalloc_def new_node_def new_list_def upd_node_def upd_list_def
  node_at_def list_at_def zfree_node_def zfree_list_def call_free_def

lemma len_pred:
  assumes "unat (n :: 64 word) = Suc k"
  shows "unat (n - 1) = k"
  using assms by (metis diff_Suc_1 unat_eq_0 unat_minus_one nat.distinct(1))


lemma world_call_free [simp]: "world (call_free l v s) = free_world l v (world s)"
  by (simp add: call_free_def free_world_def split: option.splits)

lemma len_add:
  assumes "unat (n :: 64 word) = j" "unat (m :: 64 word) = k" "j + k < 2 ^ 64"
  shows "unat (n + m) = j + k"
  using assms by (simp add: unat_word_ariths)


lemma sint_not: "sint (NOT (w :: 64 word)) = - sint w - 1"
proof -
  have "- (2 ^ 63) \<le> sint w" "sint w < 2 ^ 63"
    using sint_greater_eq [of w] sint_less [of w] by simp_all
  then have "signed_take_bit 64 (NOT (sint w)) = NOT (sint w)"
    by (intro signed_take_bit_int_eq_self) (simp_all add: not_int_def)
  then show ?thesis
    by (simp add: signed_not_eq not_int_def)
qed

lemma nonneg_sint_uint:
  assumes "0 \<le> sint (w :: 64 word)"
  shows "uint w = sint w"
proof -
  have "sint w < 2 ^ 64"
    using sint_less [of w] by simp
  then have "take_bit 64 (sint w) = sint w"
    using assms by (intro take_bit_int_eq_self)
  then show ?thesis
    by (simp add: uint_sint)
qed

lemma neg_index_steps:
  assumes "(index :: 64 word) <s 0"
  shows "int (unat ((- index) - 1)) = - sint index - 1"
proof -
  have eq: "(- index) - 1 = NOT index"
    by (simp add: not_eq_complement)
  have neg: "sint index < 0"
    using assms by (simp add: word_sless_alt)
  then have "0 \<le> sint (NOT index)"
    by (simp add: sint_not)
  then have "uint (NOT index) = - sint index - 1"
    by (simp add: nonneg_sint_uint sint_not)
  then show ?thesis
    by (simp add: eq)
qed

lemma nonneg_index_steps:
  assumes "\<not> (index :: 64 word) <s 0"
  shows "int (unat index) = sint index"
  using assms by (simp add: word_sless_alt nonneg_sint_uint)

subsection \<open>Insertion\<close>

lemma listAddNodeTail_dll:
  assumes wf: "dll s list xs"
    and res: "zmalloc_results s = node # rest"
    and node: "node \<noteq> NULL" "nodes s node = None"
  shows "\<exists>s'. listAddNodeTail list v s = Some (list, s') \<and> dll s' list (xs @ [(node, v)]) \<and>
           (\<forall>q. q \<noteq> list \<longrightarrow> lists s' q = lists s q) \<and>
           map_option hooks (lists s' list) = map_option hooks (lists s list) \<and>
           (\<forall>q. q \<notin> insert node (fst ` set xs) \<longrightarrow> nodes s' q = nodes s q) \<and>
           world s' = world s \<and> zmalloc_results s' = rest"
proof -
  from wf obtain l where l: "list \<noteq> NULL" "lists s list = Some l" "head l = first_or NULL xs"
    "tail l = last_or NULL xs" "unat (len l) = length xs" "distinct (map fst xs)"
    "dlseg (nodes s) NULL xs NULL"
    by (rule dll_D)
  have fresh: "node \<notin> fst ` set xs"
    using dlseg_allocated [OF l(7)] node(2) by blast
  have nn: "NULL \<notin> fst ` set xs"
    using l(7) by (rule dlseg_nonnull)
  have "length (xs @ [(node, v)]) < 2 ^ 64"
    using l(6) fresh nn node(1) by (intro ptr_chain_bound) auto
  then have len': "unat (len l + 1) = Suc (length xs)"
    using l(5) by (simp add: len_succ)
  show ?thesis
  proof (cases xs rule: rev_cases)
    case Nil
    then have "len l = 0" using l(5) by (simp add: unat_eq_0)
    then show ?thesis
      using l node res Nil
      by (simp add: listAddNodeTail_def exec_defs dll_def hooks_def)
  next
    case (snoc ys y)
    then have nz: "len l \<noteq> 0" using l(5) by (auto simp: unat_eq_0)
    obtain t tv where y: "y = (t, tv)" by (cases y)
    have t: "t \<noteq> NULL" "t \<noteq> node" "t \<notin> fst ` set ys" "node \<notin> fst ` set ys"
      using nn fresh l(6) snoc y by auto
    have seg: "dlseg (nodes s) NULL ys t"
      "nodes s t = Some \<lparr>node_prev = last_or NULL ys, node_next = NULL, node_value = tv\<rparr>"
      using l(7) snoc y by (simp_all add: dlseg_append)
    have tl: "tail l = t" using l(4) snoc y by simp
    show ?thesis
      using l(1,2,3,6) node res t seg tl nz len' snoc y
      by (simp add: listAddNodeTail_def exec_defs dll_def hooks_def dlseg_append
            dlseg_upd_other)
  qed
qed

lemma listAddNodeHead_dll:
  assumes wf: "dll s list xs"
    and res: "zmalloc_results s = node # rest"
    and node: "node \<noteq> NULL" "nodes s node = None"
  shows "\<exists>s'. listAddNodeHead list v s = Some (list, s') \<and> dll s' list ((node, v) # xs) \<and>
           (\<forall>q. q \<noteq> list \<longrightarrow> lists s' q = lists s q) \<and>
           map_option hooks (lists s' list) = map_option hooks (lists s list) \<and>
           (\<forall>q. q \<notin> insert node (fst ` set xs) \<longrightarrow> nodes s' q = nodes s q) \<and>
           world s' = world s \<and> zmalloc_results s' = rest"
proof -
  from wf obtain l where l: "list \<noteq> NULL" "lists s list = Some l" "head l = first_or NULL xs"
    "tail l = last_or NULL xs" "unat (len l) = length xs" "distinct (map fst xs)"
    "dlseg (nodes s) NULL xs NULL"
    by (rule dll_D)
  have fresh: "node \<notin> fst ` set xs"
    using dlseg_allocated [OF l(7)] node(2) by blast
  have nn: "NULL \<notin> fst ` set xs"
    using l(7) by (rule dlseg_nonnull)
  have "length ((node, v) # xs) < 2 ^ 64"
    using l(6) fresh nn node(1) by (intro ptr_chain_bound) auto
  then have len': "unat (len l + 1) = Suc (length xs)"
    using l(5) by (simp add: len_succ)
  show ?thesis
  proof (cases xs)
    case Nil
    then have "len l = 0" using l(5) by (simp add: unat_eq_0)
    then show ?thesis
      using l node res Nil
      by (simp add: listAddNodeHead_def exec_defs dll_def hooks_def)
  next
    case (Cons y ys)
    then have nz: "len l \<noteq> 0" using l(5) by (auto simp: unat_eq_0)
    obtain t tv where y: "y = (t, tv)" by (cases y)
    have t: "t \<noteq> NULL" "t \<noteq> node" "t \<notin> fst ` set ys" "node \<notin> fst ` set ys"
      using nn fresh l(6) Cons y by auto
    have seg: "dlseg (nodes s) t ys NULL"
      "nodes s t = Some \<lparr>node_prev = NULL, node_next = first_or NULL ys, node_value = tv\<rparr>"
      using l(7) Cons y by simp_all
    have hd: "head l = t" using l(3) Cons y by simp
    show ?thesis
      using l(1,2,4,6) node res t seg hd nz len' Cons y
      by (simp add: listAddNodeHead_def exec_defs dll_def hooks_def dlseg_upd_other)
  qed
qed

lemma listInsertNode_after_dll:
  assumes wf: "dll s list xs"
    and res: "zmalloc_results s = node # rest"
    and node: "node \<noteq> NULL" "nodes s node = None"
    and xs: "xs = ys @ (old_node, ov) # zs"
    and after: "after \<noteq> 0"
  shows "\<exists>s'. listInsertNode list old_node v after s = Some (list, s') \<and>
           dll s' list (ys @ (old_node, ov) # (node, v) # zs) \<and>
           (\<forall>q. q \<noteq> list \<longrightarrow> lists s' q = lists s q) \<and>
           map_option hooks (lists s' list) = map_option hooks (lists s list) \<and>
           (\<forall>q. q \<notin> insert node (fst ` set xs) \<longrightarrow> nodes s' q = nodes s q) \<and>
           world s' = world s \<and> zmalloc_results s' = rest"
proof -
  from wf obtain l where l: "list \<noteq> NULL" "lists s list = Some l" "head l = first_or NULL xs"
    "tail l = last_or NULL xs" "unat (len l) = length xs" "distinct (map fst xs)"
    "dlseg (nodes s) NULL xs NULL"
    by (rule dll_D)
  have fresh: "node \<notin> fst ` set xs"
    using dlseg_allocated [OF l(7)] node(2) by blast
  have nn: "NULL \<notin> fst ` set xs"
    using l(7) by (rule dlseg_nonnull)
  have "length ((node, v) # xs) < 2 ^ 64"
    using l(6) fresh nn node(1) by (intro ptr_chain_bound) auto
  then have len': "unat (len l + 1) = Suc (length xs)"
    using l(5) by (simp add: len_succ)
  have old: "old_node \<noteq> NULL" "old_node \<noteq> node" "old_node \<notin> fst ` set ys"
    "old_node \<notin> fst ` set zs" "node \<notin> fst ` set ys" "node \<notin> fst ` set zs"
    using nn fresh l(6) xs by auto
  have seg: "dlseg (nodes s) NULL ys old_node"
    "nodes s old_node =
       Some \<lparr>node_prev = last_or NULL ys, node_next = first_or NULL zs, node_value = ov\<rparr>"
    "dlseg (nodes s) old_node zs NULL"
    using l(7) xs by (simp_all add: dlseg_append)
  show ?thesis
  proof (cases zs)
    case Nil
    have tl: "tail l = old_node" using l(4) xs Nil by simp
    show ?thesis
      using l(1,2,3,6) node res old seg tl len' xs Nil after
      by (simp add: listInsertNode_def exec_defs dll_def hooks_def dlseg_append dlseg_upd_other)
  next
    case (Cons z zs')
    obtain t tv where z: "z = (t, tv)" by (cases z)
    have t: "t \<noteq> NULL" "t \<noteq> node" "t \<noteq> old_node" "t \<notin> fst ` set ys" "t \<notin> fst ` set zs'"
      "node \<notin> fst ` set zs'" "old_node \<notin> fst ` set zs'"
      using nn fresh l(6) xs Cons z by auto
    have tl: "tail l \<noteq> old_node" "tail l = last_or t zs'"
      using l(4) xs Cons z old(4) last_or_mem [of zs old_node] by auto
    have seg': "nodes s t = Some \<lparr>node_prev = old_node, node_next = first_or NULL zs', node_value = tv\<rparr>"
      "dlseg (nodes s) t zs' NULL"
      using seg(3) Cons z by simp_all
    show ?thesis
      using l(1,2,3,6) node res old seg(1,2) seg' t tl len' xs Cons z after
      by (simp add: listInsertNode_def exec_defs dll_def hooks_def dlseg_append dlseg_upd_other)
  qed
qed

lemma listInsertNode_before_dll:
  assumes wf: "dll s list xs"
    and res: "zmalloc_results s = node # rest"
    and node: "node \<noteq> NULL" "nodes s node = None"
    and xs: "xs = ys @ (old_node, ov) # zs"
    and after: "after = 0"
  shows "\<exists>s'. listInsertNode list old_node v after s = Some (list, s') \<and>
           dll s' list (ys @ (node, v) # (old_node, ov) # zs) \<and>
           (\<forall>q. q \<noteq> list \<longrightarrow> lists s' q = lists s q) \<and>
           map_option hooks (lists s' list) = map_option hooks (lists s list) \<and>
           (\<forall>q. q \<notin> insert node (fst ` set xs) \<longrightarrow> nodes s' q = nodes s q) \<and>
           world s' = world s \<and> zmalloc_results s' = rest"
proof -
  from wf obtain l where l: "list \<noteq> NULL" "lists s list = Some l" "head l = first_or NULL xs"
    "tail l = last_or NULL xs" "unat (len l) = length xs" "distinct (map fst xs)"
    "dlseg (nodes s) NULL xs NULL"
    by (rule dll_D)
  have fresh: "node \<notin> fst ` set xs"
    using dlseg_allocated [OF l(7)] node(2) by blast
  have nn: "NULL \<notin> fst ` set xs"
    using l(7) by (rule dlseg_nonnull)
  have "length ((node, v) # xs) < 2 ^ 64"
    using l(6) fresh nn node(1) by (intro ptr_chain_bound) auto
  then have len': "unat (len l + 1) = Suc (length xs)"
    using l(5) by (simp add: len_succ)
  have old: "old_node \<noteq> NULL" "old_node \<noteq> node" "old_node \<notin> fst ` set ys"
    "old_node \<notin> fst ` set zs" "node \<notin> fst ` set ys" "node \<notin> fst ` set zs"
    using nn fresh l(6) xs by auto
  have seg: "dlseg (nodes s) NULL ys old_node"
    "nodes s old_node =
       Some \<lparr>node_prev = last_or NULL ys, node_next = first_or NULL zs, node_value = ov\<rparr>"
    "dlseg (nodes s) old_node zs NULL"
    using l(7) xs by (simp_all add: dlseg_append)
  show ?thesis
  proof (cases ys rule: rev_cases)
    case Nil
    have hd: "head l = old_node" using l(3) xs Nil by simp
    show ?thesis
      using l(1,2,4,6) node res old seg hd len' xs Nil after
      by (simp add: listInsertNode_def exec_defs dll_def hooks_def dlseg_append
            dlseg_upd_other)
  next
    case (snoc ys' y)
    obtain t tv where y: "y = (t, tv)" by (cases y)
    have t: "t \<noteq> NULL" "t \<noteq> node" "t \<noteq> old_node" "t \<notin> fst ` set ys'" "t \<notin> fst ` set zs"
      "node \<notin> fst ` set ys'" "old_node \<notin> fst ` set ys'"
      using nn fresh l(6) xs snoc y by auto
    have hd: "head l \<noteq> old_node" "head l = first_or t ys'"
      using l(3) xs snoc y old(3) first_or_mem [of ys old_node] by auto
    have seg': "nodes s t = Some \<lparr>node_prev = last_or NULL ys', node_next = old_node, node_value = tv\<rparr>"
      "dlseg (nodes s) NULL ys' t"
      using seg(1) snoc y by (simp_all add: dlseg_append)
    show ?thesis
      using l(1,2,4,6) node res old seg(2,3) seg' t hd len' xs snoc y after
      by (simp add: listInsertNode_def exec_defs dll_def hooks_def dlseg_append
            dlseg_upd_other)
  qed
qed


subsection \<open>Deletion, rotation and joining\<close>

lemma listDelNode_dll:
  assumes wf: "dll s list xs"
    and xs: "xs = ys @ (node, nv) # zs"
  shows "\<exists>s'. listDelNode list node s = Some s' \<and> dll s' list (ys @ zs) \<and>
           (\<forall>q. q \<noteq> list \<longrightarrow> lists s' q = lists s q) \<and>
           map_option hooks (lists s' list) = map_option hooks (lists s list) \<and>
           (\<forall>q. q \<notin> fst ` set xs \<longrightarrow> nodes s' q = nodes s q) \<and> nodes s' node = None \<and>
           world s' = free_world (the (lists s list)) nv (world s) \<and>
           zmalloc_results s' = zmalloc_results s"
proof -
  from wf obtain l where l: "list \<noteq> NULL" "lists s list = Some l" "head l = first_or NULL xs"
    "tail l = last_or NULL xs" "unat (len l) = length xs" "distinct (map fst xs)"
    "dlseg (nodes s) NULL xs NULL"
    by (rule dll_D)
  have nn: "NULL \<notin> fst ` set xs"
    using l(7) by (rule dlseg_nonnull)
  have len': "unat (len l - 1) = length (ys @ zs)"
    using l(5) xs by (intro len_pred) simp
  have nd: "node \<noteq> NULL" "node \<notin> fst ` set ys" "node \<notin> fst ` set zs"
    using nn l(6) xs by auto
  have seg: "dlseg (nodes s) NULL ys node"
    "nodes s node =
       Some \<lparr>node_prev = last_or NULL ys, node_next = first_or NULL zs, node_value = nv\<rparr>"
    "dlseg (nodes s) node zs NULL"
    using l(7) xs by (simp_all add: dlseg_append)
  have dist: "distinct (map fst ys)" "distinct (map fst zs)" "fst ` set ys \<inter> fst ` set zs = {}"
    using l(6) xs by auto
  have hdtl: "head l = first_or node ys" "tail l = last_or node zs"
    using l(3,4) xs by simp_all
  show ?thesis
  proof (cases ys rule: rev_cases)
    case Nil
    note ysNil = Nil
    show ?thesis
    proof (cases zs)
      case Nil
      show ?thesis
        using l(1,2) nd seg hdtl len' xs ysNil Nil
        by (simp add: listDelNode_def exec_defs dll_def hooks_def free_world_def
              split: option.splits)
    next
      case (Cons z zs')
      obtain t tv where z: "z = (t, tv)" by (cases z)
      have t: "t \<noteq> NULL" "t \<noteq> node" "t \<notin> fst ` set zs'" "node \<notin> fst ` set zs'"
        using nn l(6) xs Cons z by auto
      have seg': "nodes s t = Some \<lparr>node_prev = node, node_next = first_or NULL zs', node_value = tv\<rparr>"
        "dlseg (nodes s) t zs' NULL"
        using seg(3) Cons z by simp_all
      show ?thesis
        using l(1,2) nd seg(2) seg' t dist hdtl len' xs ysNil Cons z
        by (simp add: listDelNode_def exec_defs dll_def hooks_def free_world_def
              dlseg_upd_other split: option.splits)
    qed
  next
    case (snoc ys' y)
    note ysSnoc = snoc
    obtain p pv where y: "y = (p, pv)" by (cases y)
    have p: "p \<noteq> NULL" "p \<noteq> node" "p \<notin> fst ` set ys'" "p \<notin> fst ` set zs"
      "node \<notin> fst ` set ys'"
      using nn l(6) xs snoc y by auto
    have segp: "nodes s p = Some \<lparr>node_prev = last_or NULL ys', node_next = node, node_value = pv\<rparr>"
      "dlseg (nodes s) NULL ys' p"
      using seg(1) snoc y by (simp_all add: dlseg_append)
    show ?thesis
    proof (cases zs)
      case Nil
      show ?thesis
        using l(1,2) nd seg(2) segp p dist hdtl len' xs ysSnoc y Nil
        by (simp add: listDelNode_def exec_defs dll_def hooks_def free_world_def
              dlseg_append dlseg_upd_other split: option.splits)
    next
      case (Cons z zs')
      obtain t tv where z: "z = (t, tv)" by (cases z)
      have t: "t \<noteq> NULL" "t \<noteq> node" "t \<noteq> p" "t \<notin> fst ` set zs'" "node \<notin> fst ` set zs'"
        "t \<notin> fst ` set ys'" "p \<notin> fst ` set zs'"
        using nn l(6) xs Cons z ysSnoc y by auto
      have seg': "nodes s t = Some \<lparr>node_prev = node, node_next = first_or NULL zs', node_value = tv\<rparr>"
        "dlseg (nodes s) t zs' NULL"
        using seg(3) Cons z by simp_all
      show ?thesis
        using l(1,2) nd seg(2) seg' segp p t dist hdtl len' xs ysSnoc y Cons z
        by (simp add: listDelNode_def exec_defs dll_def hooks_def free_world_def
              dlseg_append dlseg_upd_other split: option.splits)
    qed
  qed
qed

lemma listRotate_dll:
  assumes wf: "dll s list xs"
  shows "\<exists>s'. listRotate list s = Some s' \<and>
           dll s' list (if length xs \<le> 1 then xs else last xs # butlast xs) \<and>
           (length xs \<le> 1 \<longrightarrow> s' = s) \<and>
           (\<forall>q. q \<noteq> list \<longrightarrow> lists s' q = lists s q) \<and>
           map_option hooks (lists s' list) = map_option hooks (lists s list) \<and>
           (\<forall>q. q \<notin> fst ` set xs \<longrightarrow> nodes s' q = nodes s q) \<and>
           world s' = world s \<and> zmalloc_results s' = zmalloc_results s"
proof -
  from wf obtain l where l: "list \<noteq> NULL" "lists s list = Some l" "head l = first_or NULL xs"
    "tail l = last_or NULL xs" "unat (len l) = length xs" "distinct (map fst xs)"
    "dlseg (nodes s) NULL xs NULL"
    by (rule dll_D)
  have nn: "NULL \<notin> fst ` set xs"
    using l(7) by (rule dlseg_nonnull)
  have le: "(len l \<le> 1) = (length xs \<le> 1)"
    using l(5) by (simp add: word_le_nat_alt)
  show ?thesis
  proof (cases "length xs \<le> 1")
    case True
    then show ?thesis
      using wf l(1,2) le by (simp add: listRotate_def exec_defs)
  next
    case False
    then obtain hv hd ms t tv where xs: "xs = (hd, hv) # ms @ [(t, tv)]"
      by (cases xs; cases "tl xs" rule: rev_cases) auto
    have ne: "hd \<noteq> NULL" "t \<noteq> NULL" "hd \<noteq> t" "hd \<notin> fst ` set ms" "t \<notin> fst ` set ms"
      "distinct (map fst ms)"
      using nn l(6) xs by auto
    have hdtl: "head l = hd" "tail l = t"
      using l(3,4) xs by simp_all
    have rot: "(if length xs \<le> 1 then xs else last xs # butlast xs) = (t, tv) # (hd, hv) # ms"
      using xs by simp
    show ?thesis
    proof (cases ms rule: rev_cases)
      case Nil
      have seg: "nodes s hd = Some \<lparr>node_prev = NULL, node_next = t, node_value = hv\<rparr>"
        "nodes s t = Some \<lparr>node_prev = hd, node_next = NULL, node_value = tv\<rparr>"
        using l(7) xs Nil by simp_all
      show ?thesis
        unfolding rot
        using l(1,2,5) ne hdtl seg le False xs Nil
        by (simp add: listRotate_def exec_defs dll_def hooks_def)
    next
      case (snoc ms' m)
      obtain p pv where m: "m = (p, pv)" by (cases m)
      have p: "p \<noteq> NULL" "p \<noteq> hd" "p \<noteq> t" "p \<notin> fst ` set ms'" "hd \<notin> fst ` set ms'"
        "t \<notin> fst ` set ms'" "distinct (map fst ms')"
        using nn l(6) xs snoc m by auto
      have seg: "nodes s hd = Some \<lparr>node_prev = NULL, node_next = first_or p ms', node_value = hv\<rparr>"
        "dlseg (nodes s) hd ms' p"
        "nodes s p = Some \<lparr>node_prev = last_or hd ms', node_next = t, node_value = pv\<rparr>"
        "nodes s t = Some \<lparr>node_prev = p, node_next = NULL, node_value = tv\<rparr>"
        using l(7) xs snoc m by (simp_all add: dlseg_append)
      show ?thesis
        unfolding rot
        using l(1,2,5) ne p hdtl seg le False xs snoc m
        by (simp add: listRotate_def exec_defs dll_def hooks_def dlseg_append dlseg_upd_other)
    qed
  qed
qed

lemma listJoin_dll:
  assumes wfl: "dll s l xs" and wfo: "dll s other ys"
    and neq: "l \<noteq> other"
    and disj: "fst ` set xs \<inter> fst ` set ys = {}"
  shows "\<exists>s'. listJoin l other s = Some s' \<and> dll s' l (xs @ ys) \<and> dll s' other [] \<and>
           (\<forall>q. q \<noteq> l \<and> q \<noteq> other \<longrightarrow> lists s' q = lists s q) \<and>
           map_option hooks (lists s' l) = map_option hooks (lists s l) \<and>
           map_option hooks (lists s' other) = map_option hooks (lists s other) \<and>
           (\<forall>q. q \<notin> fst ` set xs \<union> fst ` set ys \<longrightarrow> nodes s' q = nodes s q) \<and>
           world s' = world s \<and> zmalloc_results s' = zmalloc_results s"
proof -
  from wfl obtain ll where ll: "l \<noteq> NULL" "lists s l = Some ll" "head ll = first_or NULL xs"
    "tail ll = last_or NULL xs" "unat (len ll) = length xs" "distinct (map fst xs)"
    "dlseg (nodes s) NULL xs NULL"
    by (rule dll_D)
  from wfo obtain ol where ol: "other \<noteq> NULL" "lists s other = Some ol"
    "head ol = first_or NULL ys" "tail ol = last_or NULL ys" "unat (len ol) = length ys"
    "distinct (map fst ys)" "dlseg (nodes s) NULL ys NULL"
    by (rule dll_D)
  have nn: "NULL \<notin> fst ` set xs" "NULL \<notin> fst ` set ys"
    using ll(7) ol(7) by (auto dest: dlseg_nonnull)
  have dist: "distinct (map fst (xs @ ys))"
    using ll(6) ol(6) disj by auto
  have "length (xs @ ys) < 2 ^ 64"
    using dist nn by (intro ptr_chain_bound) auto
  then have len': "unat (len ll + len ol) = length xs + length ys"
    using ll(5) ol(5) by (intro len_add) simp_all
  have tl_null: "(last_or NULL ys = NULL) = (ys = [])" "(last_or NULL xs = NULL) = (xs = [])"
    using nn last_or_mem [of ys NULL] last_or_mem [of xs NULL] by auto
  show ?thesis
  proof (cases ys)
    case Nil
    note ysNil = Nil
    show ?thesis
    proof (cases xs rule: rev_cases)
      case Nil
      show ?thesis
        using ll(1,2,3,4) ol(1,2,3,4) neq len' ysNil Nil
        by (simp add: listJoin_def exec_defs dll_def hooks_def)
    next
      case (snoc xs' x)
      obtain t tv where x: "x = (t, tv)" by (cases x)
      have t: "t \<noteq> NULL" "t \<notin> fst ` set xs'"
        using nn ll(6) snoc x by auto
      have seg: "nodes s t = Some \<lparr>node_prev = last_or NULL xs', node_next = NULL, node_value = tv\<rparr>"
        "dlseg (nodes s) NULL xs' t"
        using ll(7) snoc x by (simp_all add: dlseg_append)
      show ?thesis
        using ll(1,2,3,4,6) ol(1,2,3,4) t seg neq len' ysNil snoc x
        by (simp add: listJoin_def exec_defs dll_def hooks_def dlseg_append dlseg_upd_other)
    qed
  next
    case (Cons y ys')
    note ysCons = Cons
    obtain h hv where y: "y = (h, hv)" by (cases y)
    have h: "h \<noteq> NULL" "h \<notin> fst ` set ys'" "h \<notin> fst ` set xs" "distinct (map fst ys')"
      "fst ` set xs \<inter> fst ` set ys' = {}"
      using nn ol(6) disj Cons y by auto
    have segy: "nodes s h = Some \<lparr>node_prev = NULL, node_next = first_or NULL ys', node_value = hv\<rparr>"
      "dlseg (nodes s) h ys' NULL"
      using ol(7) Cons y by simp_all
    have tlo: "tail ol \<noteq> NULL" "tail ol = last_or h ys'"
      using ol(4) tl_null(1) Cons y by simp_all
    show ?thesis
    proof (cases xs rule: rev_cases)
      case Nil
      show ?thesis
        using ll(1,2,3,4) ol(1,2,3) h segy tlo neq len' ysCons y Nil
        by (simp add: listJoin_def exec_defs dll_def hooks_def dlseg_upd_other)
    next
      case (snoc xs' x)
      obtain t tv where x: "x = (t, tv)" by (cases x)
      have t: "t \<noteq> NULL" "t \<notin> fst ` set xs'" "t \<noteq> h" "t \<notin> fst ` set ys'"
        "h \<notin> fst ` set xs'" "distinct (map fst xs')" "fst ` set xs' \<inter> fst ` set ys' = {}"
        using nn ll(6) h disj snoc x ysCons y by auto
      have seg: "nodes s t = Some \<lparr>node_prev = last_or NULL xs', node_next = NULL, node_value = tv\<rparr>"
        "dlseg (nodes s) NULL xs' t"
        using ll(7) snoc x by (simp_all add: dlseg_append)
      show ?thesis
        using ll(1,2,3,4) ol(1,2,3) h(1,2,4) t seg segy tlo neq len' ysCons y snoc x
        by (simp add: listJoin_def exec_defs dll_def hooks_def dlseg_append dlseg_upd_other)
    qed
  qed
qed

subsection \<open>Emptying and releasing\<close>

lemma listEmpty_loop_dlseg:
  assumes "dlseg (nodes s) pv xs NULL" "distinct (map fst xs)" "unat n = length xs"
    and "list \<noteq> NULL" "lists s list = Some l"
  shows "\<exists>s'. listEmpty_loop list n (first_or NULL xs) s = Some s' \<and>
           lists s' = lists s \<and>
           nodes s' = (\<lambda>q. if q \<in> fst ` set xs then None else nodes s q) \<and>
           world s' = fold (free_world l) (map snd xs) (world s) \<and>
           zmalloc_results s' = zmalloc_results s"
  using assms
proof (induction xs arbitrary: s pv n)
  case Nil
  then show ?case
    by (simp add: listEmpty_loop.simps unat_eq_0)
next
  case (Cons x xs)
  obtain p v where x: "x = (p, v)" by (cases x)
  have n: "n \<noteq> 0" "unat (n - 1) = length xs"
    using Cons.prems(3) by (auto intro: len_pred)
  have p: "p \<noteq> NULL" "p \<notin> fst ` set xs" "distinct (map fst xs)"
    "nodes s p = Some \<lparr>node_prev = pv, node_next = first_or NULL xs, node_value = v\<rparr>"
    "dlseg (nodes s) p xs NULL"
    using Cons.prems(1,2) x by auto
  define s1 where "s1 = (call_free l v s)\<lparr>nodes := (nodes s)(p := None)\<rparr>"
  have s1: "nodes s1 = (nodes s)(p := None)" "lists s1 = lists s"
    "world s1 = free_world l v (world s)" "zmalloc_results s1 = zmalloc_results s"
    by (simp_all add: s1_def call_free_def free_world_def split: option.splits)
  have step: "listEmpty_loop list n (first_or NULL (x # xs)) s
                = listEmpty_loop list (n - 1) (first_or NULL xs) s1"
    using n(1) p(1,4) Cons.prems(4,5) x
    by (subst listEmpty_loop.simps) (simp add: exec_defs s1_def split: option.splits)
  have "dlseg (nodes s1) p xs NULL"
    using p(2,5) by (simp add: s1 dlseg_upd_other)
  from Cons.IH [OF this p(3) n(2) Cons.prems(4)] Cons.prems(5) s1(2)
  obtain s' where s': "listEmpty_loop list (n - 1) (first_or NULL xs) s1 = Some s'"
    "lists s' = lists s1"
    "nodes s' = (\<lambda>q. if q \<in> fst ` set xs then None else nodes s1 q)"
    "world s' = fold (free_world l) (map snd xs) (world s1)"
    "zmalloc_results s' = zmalloc_results s1"
    by auto
  show ?case
    using s' s1 step x by (auto simp: fun_eq_iff)
qed

lemma listEmpty_dll:
  assumes wf: "dll s list xs"
  shows "\<exists>s' l. listEmpty list s = Some s' \<and> dll s' list [] \<and> lists s list = Some l \<and>
           lists s' = (lists s)(list \<mapsto> l\<lparr>head := NULL, tail := NULL, len := 0\<rparr>) \<and>
           nodes s' = (\<lambda>q. if q \<in> fst ` set xs then None else nodes s q) \<and>
           world s' = fold (free_world l) (map snd xs) (world s) \<and>
           zmalloc_results s' = zmalloc_results s"
proof -
  from wf obtain l where l: "list \<noteq> NULL" "lists s list = Some l" "head l = first_or NULL xs"
    "tail l = last_or NULL xs" "unat (len l) = length xs" "distinct (map fst xs)"
    "dlseg (nodes s) NULL xs NULL"
    by (rule dll_D)
  from listEmpty_loop_dlseg [OF l(7,6,5,1,2)]
  obtain s1 where s1: "listEmpty_loop list (len l) (first_or NULL xs) s = Some s1"
    "lists s1 = lists s"
    "nodes s1 = (\<lambda>q. if q \<in> fst ` set xs then None else nodes s q)"
    "world s1 = fold (free_world l) (map snd xs) (world s)"
    "zmalloc_results s1 = zmalloc_results s"
    by auto
  show ?thesis
    using l(1,2,3) s1
    by (simp add: listEmpty_def exec_defs dll_def)
qed

lemma listRelease_dll:
  assumes wf: "dll s list xs"
  shows "\<exists>s' l. listRelease list s = Some s' \<and> lists s list = Some l \<and>
           lists s' = (lists s)(list := None) \<and>
           nodes s' = (\<lambda>q. if q \<in> fst ` set xs then None else nodes s q) \<and>
           world s' = fold (free_world l) (map snd xs) (world s) \<and>
           zmalloc_results s' = zmalloc_results s"
proof -
  from listEmpty_dll [OF wf] obtain s1 l where s1: "listEmpty list s = Some s1"
    "lists s list = Some l"
    "lists s1 = (lists s)(list \<mapsto> l\<lparr>head := NULL, tail := NULL, len := 0\<rparr>)"
    "nodes s1 = (\<lambda>q. if q \<in> fst ` set xs then None else nodes s q)"
    "world s1 = fold (free_world l) (map snd xs) (world s)"
    "zmalloc_results s1 = zmalloc_results s"
    by blast
  have "list \<noteq> NULL" using wf by (rule dll_D)
  then show ?thesis
    using s1 by (simp add: listRelease_def exec_defs)
qed

subsection \<open>Traversal and indexing\<close>

lemma listVisit_forward:
  assumes "dlseg (nodes s) pv xs NULL" "length xs < k"
  shows "listVisit k \<lparr>iter_next = first_or NULL xs, direction = AL_START_HEAD\<rparr> s = Some xs"
  using assms
proof (induction xs arbitrary: k pv)
  case Nil
  then obtain j where "k = Suc j" by (cases k) auto
  then show ?case by (simp add: listNext_def)
next
  case (Cons x xs)
  then obtain j where k: "k = Suc j" "length xs < j" by (cases k) auto
  have "dlseg (nodes s) (fst x) xs NULL" using Cons.prems(1) by simp
  from Cons.IH [OF this k(2)] Cons.prems(1) show ?case
    by (simp add: k(1) listNext_def node_at_def)
qed

lemma listVisit_backward:
  assumes "dlseg (nodes s) NULL xs nx" "length xs < k"
  shows "listVisit k \<lparr>iter_next = last_or NULL xs, direction = AL_START_TAIL\<rparr> s
           = Some (rev xs)"
  using assms
proof (induction xs arbitrary: k nx rule: rev_induct)
  case Nil
  then obtain j where "k = Suc j" by (cases k) auto
  then show ?case by (simp add: listNext_def)
next
  case (snoc x xs)
  then obtain j where k: "k = Suc j" "length xs < j" by (cases k) auto
  have "dlseg (nodes s) NULL xs (fst x)" using snoc.prems(1) by (simp add: dlseg_append)
  from snoc.IH [OF this k(2)] snoc.prems(1) show ?case
    by (simp add: k(1) listNext_def node_at_def dlseg_append AL_START_HEAD_def
          AL_START_TAIL_def)
qed

lemma listIndex_next_dlseg:
  assumes "dlseg (nodes s) pv xs NULL"
  shows "listIndex_next i (first_or NULL xs) s
           = Some (if unat i < length xs then fst (xs ! unat i) else NULL)"
  using assms
proof (induction xs arbitrary: i pv)
  case Nil
  then show ?case by (simp add: listIndex_next.simps)
next
  case (Cons x xs)
  show ?case
  proof (cases "i = 0")
    case True
    then show ?thesis by (simp add: listIndex_next.simps)
  next
    case False
    then obtain j where j: "unat i = Suc j" "unat (i - 1) = j"
      by (metis len_pred not0_implies_Suc unat_eq_0)
    have "dlseg (nodes s) (fst x) xs NULL" using Cons.prems by simp
    from Cons.IH [OF this, of "i - 1"] Cons.prems False j show ?thesis
      by (subst listIndex_next.simps) (simp add: node_at_def)
  qed
qed

lemma listIndex_prev_dlseg:
  assumes "dlseg (nodes s) NULL xs nx"
  shows "listIndex_prev i (last_or NULL xs) s
           = Some (if unat i < length xs then fst (rev xs ! unat i) else NULL)"
  using assms
proof (induction xs arbitrary: i nx rule: rev_induct)
  case Nil
  then show ?case by (simp add: listIndex_prev.simps)
next
  case (snoc x xs)
  show ?case
  proof (cases "i = 0")
    case True
    then show ?thesis by (simp add: listIndex_prev.simps)
  next
    case False
    then obtain j where j: "unat i = Suc j" "unat (i - 1) = j"
      by (metis len_pred not0_implies_Suc unat_eq_0)
    have "dlseg (nodes s) NULL xs (fst x)" using snoc.prems by (simp add: dlseg_append)
    from snoc.IH [OF this, of "i - 1"] snoc.prems False j show ?thesis
      by (subst listIndex_prev.simps) (simp add: node_at_def dlseg_append)
  qed
qed

subsection \<open>Duplication\<close>

lemma listAddNodeTail_fails:
  assumes "zmalloc_results s = [] \<or> (\<exists>rest. zmalloc_results s = NULL # rest)"
  shows "listAddNodeTail list v s = Some (NULL, s\<lparr>zmalloc_results := tl (zmalloc_results s)\<rparr>)"
  using assms by (auto simp: listAddNodeTail_def zmalloc_def)

lemma dll_frame:
  assumes "dll s list xs" "lists s' list = lists s list"
    and "\<And>q. q \<in> fst ` set xs \<Longrightarrow> nodes s' q = nodes s q"
  shows "dll s' list xs"
proof -
  from assms(1) obtain l where l: "list \<noteq> NULL" "lists s list = Some l"
    "head l = first_or NULL xs" "tail l = last_or NULL xs" "unat (len l) = length xs"
    "distinct (map fst xs)" "dlseg (nodes s) NULL xs NULL"
    by (rule dll_D)
  have "dlseg (nodes s') NULL xs NULL"
    using l(7) assms(3) by (rule dlseg_frame)
  then show ?thesis
    using l assms(2) by (intro dll_I [of list s' l]) simp_all
qed

lemma dll_allocated: "dll s list xs \<Longrightarrow> q \<in> fst ` set xs \<Longrightarrow> nodes s q \<noteq> None"
  by (erule dll_D) (rule dlseg_allocated)

lemma dll_world [simp]: "dll (s\<lparr>world := w\<rparr>) list xs = dll s list xs"
  by (simp add: dll_def list_at_def split: option.splits)

lemma dll_results [simp]: "dll (s\<lparr>zmalloc_results := rs\<rparr>) list xs = dll s list xs"
  by (simp add: dll_def list_at_def split: option.splits)

lemma release_copy:
  assumes orig: "dll s orig xs" and copy: "dll s copy ys"
    and neq: "copy \<noteq> orig" and disj: "fst ` set xs \<inter> fst ` set ys = {}"
  shows "\<exists>s'. listRelease copy s = Some s' \<and> dll s' orig xs \<and>
           lists s' = (lists s)(copy := None) \<and>
           nodes s' = (\<lambda>q. if q \<in> fst ` set ys then None else nodes s q)"
proof -
  from listRelease_dll [OF copy] obtain s' where s': "listRelease copy s = Some s'"
    "lists s' = (lists s)(copy := None)"
    "nodes s' = (\<lambda>q. if q \<in> fst ` set ys then None else nodes s q)"
    by blast
  have "dll s' orig xs"
    using orig
  proof (rule dll_frame)
    show "lists s' orig = lists s orig" using s'(2) neq by simp
    show "nodes s' q = nodes s q" if "q \<in> fst ` set xs" for q
      using that disj s'(3) by auto
  qed
  then show ?thesis using s' by blast
qed

lemma listDup_loop_end:
  assumes "iter_next iter = NULL"
  shows "listDup_loop copy iter s = Some (copy, s)"
  using assms by (subst listDup_loop.simps) (simp add: listNext_def)

lemma listDup_loop_step:
  assumes "iter_next iter = p" "p \<noteq> NULL" "nodes s p = Some n"
    and "direction iter = AL_START_HEAD" "copy \<noteq> NULL" "lists s copy = Some c"
  shows "listDup_loop copy iter s =
     (case (case dup c of
              Some d \<Rightarrow> (case d (node_value n) (world s) of (v, w) \<Rightarrow> (v, s\<lparr>world := w\<rparr>))
            | None \<Rightarrow> (node_value n, s)) of
        (v, s1) \<Rightarrow>
          if dup c \<noteq> None \<and> v = NULL then do {
            s2 \<leftarrow> listRelease copy s1;
            Some (NULL, s2)
          } else do {
            (r, s2) \<leftarrow> listAddNodeTail copy v s1;
            if r = NULL then do {
              s3 \<leftarrow> listRelease copy s2;
              Some (NULL, s3)
            } else listDup_loop copy (iter\<lparr>iter_next := node_next n\<rparr>) s2
          })"
  using assms
  by (subst listDup_loop.simps) (simp add: listNext_def node_at_def list_at_def)

lemma dup_values_length:
  "dup_values d vs w = Some (rs, w') \<Longrightarrow> length rs = length vs"
  by (induction d vs w arbitrary: rs w' rule: dup_values.induct)
     (auto split: prod.splits if_splits Option.bind_splits)

lemma listDup_loop_run:
  assumes orig: "dll s orig xs" and split: "xs = xs1 @ xs2"
    and copy: "dll s copy ys" "lists s copy = Some c"
    and neq: "copy \<noteq> orig"
    and disj: "fst ` set xs \<inter> fst ` set ys = {}"
    and fresh: "distinct (filter (\<lambda>p. p \<noteq> NULL) (zmalloc_results s))"
      "\<forall>p \<in> set (zmalloc_results s). p \<noteq> NULL \<longrightarrow> nodes s p = None"
  shows "\<exists>r s'. listDup_loop copy
              \<lparr>iter_next = first_or NULL xs2, direction = AL_START_HEAD\<rparr> s = Some (r, s') \<and>
           dll s' orig xs \<and> (\<forall>q. q \<noteq> copy \<longrightarrow> lists s' q = lists s q) \<and>
           (\<forall>q. nodes s q \<noteq> None \<and> q \<notin> fst ` set ys \<longrightarrow> nodes s' q = nodes s q) \<and>
           (r = NULL \<longrightarrow> lists s' copy = None \<and>
              nodes s' = (\<lambda>q. if q \<in> fst ` set ys then None else nodes s q)) \<and>
           (r \<noteq> NULL \<longrightarrow> r = copy \<and>
              map_option hooks (lists s' copy) = Some (hooks c) \<and>
              (\<exists>zs. dll s' copy (ys @ zs) \<and> fst ` set zs \<subseteq> set (zmalloc_results s) \<and>
                 dup_values (dup c) (map snd xs2) (world s) = Some (map snd zs, world s')))"
  using assms
proof (induction xs2 arbitrary: s ys xs1 c)
  case Nil
  have "copy \<noteq> NULL" using Nil.prems(3) by (rule dll_D)
  then show ?case
    using Nil.prems by (simp add: listDup_loop_end)
next
  case (Cons x xs2)
  obtain p v where x: "x = (p, v)" by (cases x)
  note orig = Cons.prems(1) and split = Cons.prems(2) and copy = Cons.prems(3,4)
    and neq = Cons.prems(5) and disj = Cons.prems(6) and fresh = Cons.prems(7,8)
  have cnn: "copy \<noteq> NULL" using copy(1) by (rule dll_D)
  have seg: "dlseg (nodes s) NULL xs NULL" using orig by (rule dll_D)
  define n where "n = \<lparr>node_prev = last_or NULL xs1, node_next = first_or NULL xs2,
    node_value = v\<rparr>"
  have p: "p \<noteq> NULL" "nodes s p = Some n"
    using seg split x by (simp_all add: dlseg_append n_def)
  define vs where "vs = (case dup c of
       Some d \<Rightarrow> (case d v (world s) of (v', w) \<Rightarrow> (v', s\<lparr>world := w\<rparr>))
     | None \<Rightarrow> (v, s))"
  obtain v' sa where vs': "vs = (v', sa)" by (cases vs)
  have sa: "nodes sa = nodes s" "lists sa = lists s" "zmalloc_results sa = zmalloc_results s"
    "dll sa orig xs" "dll sa copy ys"
    using vs' orig copy(1) by (auto simp: vs_def split: option.splits prod.splits)
  let ?iter = "\<lparr>iter_next = first_or NULL (x # xs2), direction = AL_START_HEAD\<rparr>"
  let ?iter' = "\<lparr>iter_next = first_or NULL xs2, direction = AL_START_HEAD\<rparr>"
  have step: "listDup_loop copy ?iter s =
      (if dup c \<noteq> None \<and> v' = NULL then do {
            s2 \<leftarrow> listRelease copy sa;
            Some (NULL, s2)
          } else do {
            (r, s2) \<leftarrow> listAddNodeTail copy v' sa;
            if r = NULL then do {
              s3 \<leftarrow> listRelease copy s2;
              Some (NULL, s3)
            } else listDup_loop copy ?iter' s2
          })"
  proof -
    have nv: "node_value n = v" "node_next n = first_or NULL xs2"
      by (simp_all add: n_def)
    have "iter_next ?iter = p" "direction ?iter = AL_START_HEAD"
      using x by simp_all
    note listDup_loop_step [OF this(1) p this(2) cnn copy(2), unfolded nv, folded vs_def]
    then show ?thesis
      using vs' by (simp cong del: if_weak_cong)
  qed
  have failing: ?case
    if run: "listDup_loop copy ?iter s = do { s2 \<leftarrow> listRelease copy sb; Some (NULL, s2) }"
      and sb: "nodes sb = nodes s" "lists sb = lists s" "dll sb orig xs" "dll sb copy ys"
    for sb
  proof -
    from release_copy [OF sb(3,4) neq disj] obtain s' where s': "listRelease copy sb = Some s'"
      "dll s' orig xs" "lists s' = (lists sb)(copy := None)"
      "nodes s' = (\<lambda>q. if q \<in> fst ` set ys then None else nodes sb q)"
      by blast
    show ?thesis
      using run s' sb(1,2) by (simp cong del: if_weak_cong)
  qed
  show ?case
  proof (cases "dup c \<noteq> None \<and> v' = NULL")
    case True
    show ?thesis
      using True step sa by (intro failing [of sa]) simp_all
  next
    case noDupFail: False
    have step': "listDup_loop copy ?iter s = do {
            (r, s2) \<leftarrow> listAddNodeTail copy v' sa;
            if r = NULL then do {
              s3 \<leftarrow> listRelease copy s2;
              Some (NULL, s3)
            } else listDup_loop copy ?iter' s2
          }"
      unfolding step using noDupFail by (rule if_not_P)
    show ?thesis
    proof (cases "zmalloc_results s = [] \<or> (\<exists>rest. zmalloc_results s = NULL # rest)")
      case True
      define sb where "sb = sa\<lparr>zmalloc_results := tl (zmalloc_results sa)\<rparr>"
      have "listAddNodeTail copy v' sa = Some (NULL, sb)"
        unfolding sb_def using True sa(3) by (intro listAddNodeTail_fails) simp
      then show ?thesis
        using step' sa by (intro failing [of sb]) (simp_all add: sb_def)
    next
      case False
      then obtain node rest where res: "zmalloc_results s = node # rest" "node \<noteq> NULL"
        by (cases "zmalloc_results s") auto
      have nfresh: "nodes s node = None"
        using fresh(2) res by simp
      from listAddNodeTail_dll [OF sa(5) _ res(2), of rest v'] sa(1,3) res(1) nfresh
      obtain sb where sb: "listAddNodeTail copy v' sa = Some (copy, sb)"
        "dll sb copy (ys @ [(node, v')])"
        "\<forall>q. q \<noteq> copy \<longrightarrow> lists sb q = lists sa q"
        "map_option hooks (lists sb copy) = map_option hooks (lists sa copy)"
        "\<forall>q. q \<notin> insert node (fst ` set ys) \<longrightarrow> nodes sb q = nodes sa q"
        "world sb = world sa" "zmalloc_results sb = rest"
        by auto
      from sb(2) obtain c' where c': "lists sb copy = Some c'" by (rule dll_D)
      have hooks': "hooks c' = hooks c"
        using sb(4) c' copy(2) sa(2) by simp
      have node_xs: "node \<notin> fst ` set xs"
        using dll_allocated [OF orig] nfresh by blast
      have node_ys: "node \<notin> fst ` set ys"
        using dll_allocated [OF copy(1)] nfresh by blast
      have orig': "dll sb orig xs"
        using sa(4)
      proof (rule dll_frame)
        show "lists sb orig = lists sa orig" using sb(3) neq by simp
        show "nodes sb q = nodes sa q" if "q \<in> fst ` set xs" for q
        proof -
          have "q \<notin> insert node (fst ` set ys)"
            using that disj node_xs by blast
          then show ?thesis using sb(5) by blast
        qed
      qed
      have split': "xs = (xs1 @ [x]) @ xs2" using split by simp
      have disj': "fst ` set xs \<inter> fst ` set (ys @ [(node, v')]) = {}"
        using disj node_xs by auto
      have fresh': "distinct (filter (\<lambda>p. p \<noteq> NULL) (zmalloc_results sb))"
        "\<forall>q \<in> set (zmalloc_results sb). q \<noteq> NULL \<longrightarrow> nodes sb q = None"
      proof -
        show "distinct (filter (\<lambda>p. p \<noteq> NULL) (zmalloc_results sb))"
          using fresh(1) res sb(7) by simp
        show "\<forall>q \<in> set (zmalloc_results sb). q \<noteq> NULL \<longrightarrow> nodes sb q = None"
        proof (intro ballI impI)
          fix q assume q: "q \<in> set (zmalloc_results sb)" "q \<noteq> NULL"
          then have "q \<noteq> node" using fresh(1) res sb(7) by auto
          moreover have qs: "nodes s q = None" using fresh(2) q res sb(7) by simp
          then have "q \<notin> fst ` set ys" using dll_allocated [OF copy(1)] by blast
          ultimately show "nodes sb q = None" using sb(5) sa(1) qs by simp
        qed
      qed
      from Cons.IH [OF orig' split' sb(2) c' neq disj' fresh']
      obtain r s' where r: "listDup_loop copy ?iter' sb = Some (r, s')"
        "dll s' orig xs" "\<forall>q. q \<noteq> copy \<longrightarrow> lists s' q = lists sb q"
        "\<forall>q. nodes sb q \<noteq> None \<and> q \<notin> fst ` set (ys @ [(node, v')]) \<longrightarrow> nodes s' q = nodes sb q"
        "r = NULL \<longrightarrow> lists s' copy = None \<and>
           nodes s' = (\<lambda>q. if q \<in> fst ` set (ys @ [(node, v')]) then None else nodes sb q)"
        "r \<noteq> NULL \<longrightarrow> r = copy \<and> map_option hooks (lists s' copy) = Some (hooks c') \<and>
           (\<exists>zs. dll s' copy ((ys @ [(node, v')]) @ zs) \<and>
              fst ` set zs \<subseteq> set (zmalloc_results sb) \<and>
              dup_values (dup c') (map snd xs2) (world sb) = Some (map snd zs, world s'))"
        by blast
      have run: "listDup_loop copy ?iter s = Some (r, s')"
        using step' sb(1) cnn r(1) by simp
      have frame: "\<forall>q. nodes s q \<noteq> None \<and> q \<notin> fst ` set ys \<longrightarrow> nodes s' q = nodes s q"
      proof (intro allI impI)
        fix q assume q: "nodes s q \<noteq> None \<and> q \<notin> fst ` set ys"
        then have "q \<noteq> node" using nfresh by auto
        then have "nodes sb q = nodes s q" using q sb(5) sa(1) by simp
        moreover from this have "nodes s' q = nodes sb q" using q r(4) \<open>q \<noteq> node\<close> by simp
        ultimately show "nodes s' q = nodes s q" by simp
      qed
      have failed: "lists s' copy = None \<and>
          nodes s' = (\<lambda>q. if q \<in> fst ` set ys then None else nodes s q)" if "r = NULL"
      proof -
        have "nodes s' q = (if q \<in> fst ` set ys then None else nodes s q)" for q
          using r(5) that sb(5) sa(1) nfresh by (cases "q = node") auto
        then show ?thesis using r(5) that by auto
      qed
      have succeeded: "r = copy \<and> map_option hooks (lists s' copy) = Some (hooks c) \<and>
          (\<exists>zs. dll s' copy (ys @ zs) \<and> fst ` set zs \<subseteq> set (zmalloc_results s) \<and>
             dup_values (dup c) (map snd (x # xs2)) (world s) = Some (map snd zs, world s'))"
        if "r \<noteq> NULL"
      proof -
        from r(6) that obtain zs where zs: "r = copy"
          "map_option hooks (lists s' copy) = Some (hooks c')"
          "dll s' copy ((ys @ [(node, v')]) @ zs)"
          "dup_values (dup c') (map snd xs2) (world sb) = Some (map snd zs, world s')"
          "fst ` set zs \<subseteq> set (zmalloc_results sb)"
          by blast
        have dupc: "dup c' = dup c" using hooks' by (simp add: hooks_def)
        have "dup_values (dup c) (map snd (x # xs2)) (world s)
                = Some (map snd ((node, v') # zs), world s')"
          using zs(4) dupc vs' noDupFail sb(6) x
          by (cases "dup c") (auto simp: vs_def split: prod.splits)
        moreover have "dll s' copy (ys @ (node, v') # zs)"
          using zs(3) by simp
        moreover have "fst ` set ((node, v') # zs) \<subseteq> set (zmalloc_results s)"
          using zs(5) sb(7) res(1) by auto
        ultimately show ?thesis
          using zs(1,2) hooks' by (intro conjI exI [of _ "(node, v') # zs"]) simp_all
      qed
      show ?thesis
        using run r(2,3) sb(3) sa(2) frame failed succeeded by auto
    qed
  qed
qed

lemma listCreate_fails:
  assumes "zmalloc_results s = [] \<or> (\<exists>rest. zmalloc_results s = NULL # rest)"
  shows "listCreate s = Some (NULL, s\<lparr>zmalloc_results := tl (zmalloc_results s)\<rparr>)"
  using assms by (auto simp: listCreate_def zmalloc_def)

lemma listCreate_succeeds:
  assumes "zmalloc_results s = c # rest" "c \<noteq> NULL"
  shows "listCreate s =
           Some (c, s\<lparr>zmalloc_results := rest,
                      lists := (lists s)(c \<mapsto> \<lparr>head = NULL, tail = NULL, dup = None,
                                                  free = None, match = None, len = 0\<rparr>)\<rparr>)"
  using assms by (simp add: listCreate_def exec_defs)

lemma listCreate_dll:
  assumes "zmalloc_results s = c # rest" "c \<noteq> NULL"
  shows "\<exists>s'. listCreate s = Some (c, s') \<and> dll s' c [] \<and> nodes s' = nodes s \<and>
           (\<forall>q. q \<noteq> c \<longrightarrow> lists s' q = lists s q)"
  using assms by (simp add: listCreate_succeeds dll_def list_at_def)

lemma listDup_run:
  assumes orig: "dll s orig xs" and fresh: "fresh_results s"
  shows "\<exists>r s' l. listDup orig s = Some (r, s') \<and> dll s' orig xs \<and>
           lists s orig = Some l \<and> lists s' orig = Some l \<and>
           (\<forall>q. nodes s q \<noteq> None \<longrightarrow> nodes s' q = nodes s q) \<and>
           (r = NULL \<longrightarrow> lists s' = lists s \<and> nodes s' = nodes s) \<and>
           (r \<noteq> NULL \<longrightarrow>
              r = hd (zmalloc_results s) \<and> lists s r = None \<and>
              (\<forall>q. q \<noteq> r \<longrightarrow> lists s' q = lists s q) \<and>
              map_option hooks (lists s' r) = Some (hooks l) \<and>
              (\<exists>zs. dll s' r zs \<and> fst ` set zs \<inter> fst ` set xs = {} \<and>
                 (\<forall>q \<in> fst ` set zs. nodes s q = None) \<and>
                 dup_values (dup l) (map snd xs) (world s) = Some (map snd zs, world s')))"
proof -
  from orig obtain l where l: "orig \<noteq> NULL" "lists s orig = Some l"
    "head l = first_or NULL xs"
    by (rule dll_D)
  show ?thesis
  proof (cases "zmalloc_results s = [] \<or> (\<exists>rest. zmalloc_results s = NULL # rest)")
    case True
    then show ?thesis
      using orig l(2) by (simp add: listDup_def listCreate_fails)
  next
    case False
    then obtain c rest where res: "zmalloc_results s = c # rest" "c \<noteq> NULL"
      by (cases "zmalloc_results s") auto
    have cfresh: "lists s c = None"
      using fresh res by (simp add: fresh_results_def)
    then have neq: "c \<noteq> orig" using l(2) by auto
    define cl :: "'a adlist" where "cl = \<lparr>head = NULL, tail = NULL, dup = dup l, free = free l,
      match = match l, len = 0\<rparr>"
    define s1 where "s1 = s\<lparr>zmalloc_results := rest, lists := (lists s)(c \<mapsto> cl)\<rparr>"
    have s1: "nodes s1 = nodes s" "lists s1 = (lists s)(c \<mapsto> cl)" "world s1 = world s"
      "zmalloc_results s1 = rest"
      by (simp_all add: s1_def)
    have run: "listDup orig s =
        listDup_loop c \<lparr>iter_next = first_or NULL xs, direction = AL_START_HEAD\<rparr> s1"
      using res l neq
      by (simp add: listDup_def listCreate_succeeds exec_defs listRewind_def s1_def cl_def)
    have orig1: "dll s1 orig xs"
      using orig by (rule dll_frame) (simp_all add: s1 neq [symmetric])
    have copy1: "dll s1 c []" "lists s1 c = Some cl"
      using res(2) by (simp_all add: dll_def list_at_def s1 cl_def)
    have fresh1: "distinct (filter (\<lambda>p. p \<noteq> NULL) (zmalloc_results s1))"
      "\<forall>p \<in> set (zmalloc_results s1). p \<noteq> NULL \<longrightarrow> nodes s1 p = None"
      using fresh res by (simp_all add: fresh_results_def s1)
    from listDup_loop_run [OF orig1 _ copy1 neq _ fresh1, of "[]" xs]
    obtain r s' where r: "listDup_loop c
          \<lparr>iter_next = first_or NULL xs, direction = AL_START_HEAD\<rparr> s1 = Some (r, s')"
      "dll s' orig xs" "\<forall>q. q \<noteq> c \<longrightarrow> lists s' q = lists s1 q"
      "\<forall>q. nodes s1 q \<noteq> None \<longrightarrow> nodes s' q = nodes s1 q"
      "r = NULL \<longrightarrow> lists s' c = None \<and> nodes s' = nodes s1"
      "r \<noteq> NULL \<longrightarrow> r = c \<and> map_option hooks (lists s' c) = Some (hooks cl) \<and>
         (\<exists>zs. dll s' c zs \<and> fst ` set zs \<subseteq> set (zmalloc_results s1) \<and>
            dup_values (dup cl) (map snd xs) (world s1) = Some (map snd zs, world s'))"
      by auto
    have same_orig: "lists s' orig = Some l"
      using r(3) neq s1(2) l(2) by simp
    have failed: "lists s' = lists s \<and> nodes s' = nodes s" if "r = NULL"
    proof -
      have "lists s' q = lists s q" for q
        using r(3,5) that s1(2) cfresh by (cases "q = c") simp_all
      then show ?thesis using r(5) that s1(1) by auto
    qed
    have succeeded: "r = hd (zmalloc_results s) \<and> lists s r = None \<and>
        (\<forall>q. q \<noteq> r \<longrightarrow> lists s' q = lists s q) \<and>
        map_option hooks (lists s' r) = Some (hooks l) \<and>
        (\<exists>zs. dll s' r zs \<and> fst ` set zs \<inter> fst ` set xs = {} \<and>
           (\<forall>q \<in> fst ` set zs. nodes s q = None) \<and>
           dup_values (dup l) (map snd xs) (world s) = Some (map snd zs, world s'))"
      if "r \<noteq> NULL"
    proof -
      from r(6) that obtain zs where zs: "r = c"
        "map_option hooks (lists s' c) = Some (hooks cl)" "dll s' c zs"
        "fst ` set zs \<subseteq> set (zmalloc_results s1)"
        "dup_values (dup cl) (map snd xs) (world s1) = Some (map snd zs, world s')"
        by blast
      have "dlseg (nodes s') NULL zs NULL" using zs(3) by (rule dll_D)
      then have "NULL \<notin> fst ` set zs" by (rule dlseg_nonnull)
      have unalloc: "\<forall>q \<in> fst ` set zs. nodes s q = None"
      proof
        fix q assume q: "q \<in> fst ` set zs"
        then have "q \<noteq> NULL" "q \<in> set (zmalloc_results s)"
          using \<open>NULL \<notin> fst ` set zs\<close> zs(4) res(1) s1(4) by auto
        then show "nodes s q = None"
          using fresh by (simp add: fresh_results_def)
      qed
      have "fst ` set zs \<inter> fst ` set xs = {}"
        using unalloc dll_allocated [OF orig] by blast
      moreover have "hooks cl = hooks l" "dup cl = dup l"
        by (simp_all add: cl_def hooks_def)
      ultimately show ?thesis
        using zs(1,2,3,5) unalloc res(1) cfresh r(3) s1(2,3)
        by (intro conjI exI [of _ zs]) simp_all
    qed
    show ?thesis
      using run r(1,2,4) s1(1) l(2) same_orig failed succeeded by auto
  qed
qed

lemma dup_values_None:
  "dup_values None vs w = Some (vs, w)"
  by (induction vs) simp_all

lemma dup_values_nth:
  assumes "dup_values (Some f) vs w = Some (rs, w')" "i < length vs"
  shows "\<exists>u u'. f (vs ! i) u = (rs ! i, u') \<and> rs ! i \<noteq> NULL"
  using assms
proof (induction vs arbitrary: w rs i)
  case Nil
  then show ?case by simp
next
  case (Cons v vs)
  obtain v' w1 where f: "f v w = (v', w1)" by (cases "f v w")
  with Cons.prems(1) obtain rs' where rs': "v' \<noteq> NULL"
    "dup_values (Some f) vs w1 = Some (rs', w')" "rs = v' # rs'"
    by (auto split: if_splits Option.bind_splits)
  show ?case
  proof (cases i)
    case 0
    then show ?thesis using f rs' by auto
  next
    case (Suc j)
    then show ?thesis
      using Cons.IH [OF rs'(2), of j] Cons.prems(2) rs'(3) by simp
  qed
qed

text \<open>Unfolding the operations on a concrete heap.\<close>

lemmas run_defs = listDup_def listCreate_def listRewind_def listDup_loop.simps listNext_def
  listAddNodeTail_def listRelease_def listEmpty_def listEmpty_loop.simps exec_defs
  dup_copy_def dup_fail_20_def free_log_def AL_START_HEAD_def

text \<open>
  A remark on the values. Without a \<open>dup\<close> hook the copy shares the values of the
  source. When \<open>listDup\<close> then fails after the first node, releasing the copy calls the
  \<open>free\<close> hook on the value 10, which the source still holds: the list record and the
  nodes of the source are as before, the value is destroyed.
\<close>

lemma listDup_shallow_failure_frees_shared_value:
  "\<exists>s'. listDup 100 (heap_shallow [200, 4, NULL]) = Some (NULL, s') \<and> world s' = [10] \<and>
     nodes s' 1 = Some \<lparr>node_prev = NULL, node_next = 2, node_value = 10\<rparr>"
  by (simp add: run_defs heap_shallow_def heap_hooks_def)

subsection \<open>The invariant of the specification\<close>

lemma dll_list_invariant:
  assumes "dll s list xs"
  shows "list_invariant s list"
proof -
  from assms obtain l where l: "list \<noteq> NULL" "lists s list = Some l" "head l = first_or NULL xs"
    "tail l = last_or NULL xs" "unat (len l) = length xs" "distinct (map fst xs)"
    "dlseg (nodes s) NULL xs NULL"
    by (rule dll_D)
  have nn: "NULL \<notin> fst ` set xs"
    using l(7) by (rule dlseg_nonnull)
  have len0: "(len l = 0) = (xs = [])"
    using l(5) by (rule len_zero_iff)
  have len1: "(len l = 1) = (length xs = 1)"
    using l(5) by (simp add: word_unat_eq_iff)
  show ?thesis
  proof (cases xs)
    case Nil
    then show ?thesis
      using l len0 len1 by (simp add: list_invariant_def list_at_def node_at_def)
  next
    case (Cons x ys)
    note xs = Cons
    show ?thesis
    proof (cases ys)
      case Nil
      then show ?thesis
        using l nn len0 len1 xs by (simp add: list_invariant_def list_at_def node_at_def)
    next
      case (Cons y zs)
      have "last_or (fst x) ys \<in> fst ` set ys"
        using Cons by (intro last_or_mem) simp
      moreover have "fst x \<notin> fst ` set ys" "head l = fst x" "tail l = last_or (fst x) ys"
        using l(3,4,6) xs by simp_all
      ultimately have "head l \<noteq> tail l"
        by metis
      then show ?thesis
        using l nn len0 len1 xs Cons by (simp add: list_invariant_def list_at_def)
    qed
  qed
qed

lemma fresh_results_head:
  assumes "fresh_results s" "zmalloc_results s = node # rest" "node \<noteq> NULL"
  shows "nodes s node = None" "lists s node = None"
  using assms by (simp_all add: fresh_results_def)

lemma alloc_cases:
  obtains (fail) "zmalloc_results s = [] \<or> (\<exists>rest. zmalloc_results s = NULL # rest)"
  | (ok) node rest where "zmalloc_results s = node # rest" "node \<noteq> NULL"
  by (cases "zmalloc_results s") auto

lemma add_head_inv:
  assumes "dll s list xs" "fresh_results s"
  shows "\<exists>r s' xs'. listAddNodeHead list v s = Some (r, s') \<and> dll s' list xs'"
proof (cases s rule: alloc_cases)
  case fail
  then have "listAddNodeHead list v s = Some (NULL, s\<lparr>zmalloc_results := tl (zmalloc_results s)\<rparr>)"
    by (auto simp: listAddNodeHead_def zmalloc_def)
  then show ?thesis using assms(1) by (intro exI [of _ NULL] exI [of _ "s\<lparr>zmalloc_results := tl (zmalloc_results s)\<rparr>"]
          exI [of _ xs]) simp
next
  case (ok node rest)
  from listAddNodeHead_dll [OF assms(1) ok fresh_results_head(1) [OF assms(2) ok], of v]
  show ?thesis by blast
qed

lemma add_tail_inv:
  assumes "dll s list xs" "fresh_results s"
  shows "\<exists>r s' xs'. listAddNodeTail list v s = Some (r, s') \<and> dll s' list xs'"
proof (cases s rule: alloc_cases)
  case fail
  then have "listAddNodeTail list v s = Some (NULL, s\<lparr>zmalloc_results := tl (zmalloc_results s)\<rparr>)"
    by (rule listAddNodeTail_fails)
  then show ?thesis using assms(1) by (intro exI [of _ NULL] exI [of _ "s\<lparr>zmalloc_results := tl (zmalloc_results s)\<rparr>"]
          exI [of _ xs]) simp
next
  case (ok node rest)
  from listAddNodeTail_dll [OF assms(1) ok fresh_results_head(1) [OF assms(2) ok], of v]
  show ?thesis by blast
qed

lemma insert_inv:
  assumes "dll s list xs" "fresh_results s" "old_node \<in> fst ` set xs"
  shows "\<exists>r s' xs'. listInsertNode list old_node v after s = Some (r, s') \<and> dll s' list xs'"
proof (cases s rule: alloc_cases)
  case fail
  then have "listInsertNode list old_node v after s
      = Some (NULL, s\<lparr>zmalloc_results := tl (zmalloc_results s)\<rparr>)"
    by (auto simp: listInsertNode_def zmalloc_def)
  then show ?thesis using assms(1) by (intro exI [of _ NULL] exI [of _ "s\<lparr>zmalloc_results := tl (zmalloc_results s)\<rparr>"]
          exI [of _ xs]) simp
next
  case (ok node rest)
  from assms(3) obtain ov where "(old_node, ov) \<in> set xs" by auto
  then obtain ys zs where xs: "xs = ys @ (old_node, ov) # zs"
    by (auto dest: split_list)
  note fr = fresh_results_head(1) [OF assms(2) ok]
  show ?thesis
  proof (cases "after = 0")
    case True
    from listInsertNode_before_dll [OF assms(1) ok fr xs True, of v] show ?thesis by blast
  next
    case False
    from listInsertNode_after_dll [OF assms(1) ok fr xs False, of v] show ?thesis by blast
  qed
qed

lemma del_inv:
  assumes "dll s list xs" "node \<in> fst ` set xs"
  shows "\<exists>s' xs'. listDelNode list node s = Some s' \<and> dll s' list xs'"
proof -
  from assms(2) obtain nv where "(node, nv) \<in> set xs" by auto
  then obtain ys zs where xs: "xs = ys @ (node, nv) # zs"
    by (auto dest: split_list)
  from listDelNode_dll [OF assms(1) xs] show ?thesis by blast
qed

section \<open>The claims of the specification\<close>

text \<open>
  C1. Each of \<open>listAddNodeHead\<close>, \<open>listAddNodeTail\<close>, \<open>listInsertNode\<close>,
  \<open>listDelNode\<close>, \<open>listRotate\<close>, \<open>listJoin\<close>, \<open>listEmpty\<close> and \<open>listDup\<close>, run
  on a well-formed list (for insertion or deletion relative to a node: one that
  belongs to the list; for joining: a second well-formed list with its own record and
  nodes), returns and leaves the list well-formed and with the invariant of the
  specification: the length is 0 exactly when head and tail are null, and 1 exactly
  when head and tail are one node whose \<open>prev\<close> and \<open>next\<close> are null. The same
  holds for the emptied second list of a join and for the list returned by \<open>listDup\<close>.
\<close>

theorem operations_preserve_invariant:
  assumes wf: "dll s list xs"
  shows
    "(fresh_results s \<longrightarrow>
        (\<exists>r s' xs'. listAddNodeHead list v s = Some (r, s') \<and>
           dll s' list xs' \<and> list_invariant s' list) \<and>
        (\<exists>r s' xs'. listAddNodeTail list v s = Some (r, s') \<and>
           dll s' list xs' \<and> list_invariant s' list) \<and>
        (old_node \<in> fst ` set xs \<longrightarrow>
           (\<exists>r s' xs'. listInsertNode list old_node v after s = Some (r, s') \<and>
              dll s' list xs' \<and> list_invariant s' list)) \<and>
        (\<exists>r s'. listDup list s = Some (r, s') \<and> dll s' list xs \<and> list_invariant s' list \<and>
           (r \<noteq> NULL \<longrightarrow> (\<exists>zs. dll s' r zs) \<and> list_invariant s' r))) \<and>
     (node \<in> fst ` set xs \<longrightarrow>
        (\<exists>s' xs'. listDelNode list node s = Some s' \<and>
           dll s' list xs' \<and> list_invariant s' list)) \<and>
     (\<exists>s' xs'. listRotate list s = Some s' \<and> dll s' list xs' \<and> list_invariant s' list) \<and>
     (dll s other ys \<and> list \<noteq> other \<and> fst ` set xs \<inter> fst ` set ys = {} \<longrightarrow>
        (\<exists>s'. listJoin list other s = Some s' \<and>
           dll s' list (xs @ ys) \<and> list_invariant s' list \<and>
           dll s' other [] \<and> list_invariant s' other)) \<and>
     (\<exists>s'. listEmpty list s = Some s' \<and> dll s' list [] \<and> list_invariant s' list)"
proof (intro conjI impI)
  assume fresh: "fresh_results s"
  show "\<exists>r s' xs'. listAddNodeHead list v s = Some (r, s') \<and>
           dll s' list xs' \<and> list_invariant s' list"
    using add_head_inv [OF wf fresh, of v] dll_list_invariant by blast
  show "\<exists>r s' xs'. listAddNodeTail list v s = Some (r, s') \<and>
           dll s' list xs' \<and> list_invariant s' list"
    using add_tail_inv [OF wf fresh, of v] dll_list_invariant by blast
  show "\<exists>r s' xs'. listInsertNode list old_node v after s = Some (r, s') \<and>
              dll s' list xs' \<and> list_invariant s' list"
    if "old_node \<in> fst ` set xs"
    using insert_inv [OF wf fresh that, of v after] dll_list_invariant by blast
  from listDup_run [OF wf fresh]
  show "\<exists>r s'. listDup list s = Some (r, s') \<and> dll s' list xs \<and> list_invariant s' list \<and>
           (r \<noteq> NULL \<longrightarrow> (\<exists>zs. dll s' r zs) \<and> list_invariant s' r)"
  proof (elim exE conjE)
    fix r s' and l :: "'a adlist"
    assume run: "listDup list s = Some (r, s')" "dll s' list xs"
    assume "r \<noteq> NULL \<longrightarrow>
       r = hd (zmalloc_results s) \<and> lists s r = None \<and>
       (\<forall>q. q \<noteq> r \<longrightarrow> lists s' q = lists s q) \<and>
       map_option hooks (lists s' r) = Some (hooks l) \<and>
       (\<exists>zs. dll s' r zs \<and> fst ` set zs \<inter> fst ` set xs = {} \<and>
          (\<forall>q \<in> fst ` set zs. nodes s q = None) \<and>
          dup_values (dup l) (map snd xs) (world s) = Some (map snd zs, world s'))"
    then have "r \<noteq> NULL \<longrightarrow> (\<exists>zs. dll s' r zs)"
      by blast
    then have "r \<noteq> NULL \<longrightarrow> (\<exists>zs. dll s' r zs) \<and> list_invariant s' r"
      using dll_list_invariant by blast
    then show ?thesis
      using run dll_list_invariant [OF run(2)] by (intro exI [of _ r] exI [of _ s']) simp
  qed
next
  assume "node \<in> fst ` set xs"
  from del_inv [OF wf this] show "\<exists>s' xs'. listDelNode list node s = Some s' \<and>
           dll s' list xs' \<and> list_invariant s' list"
    using dll_list_invariant by blast
next
  show "\<exists>s' xs'. listRotate list s = Some s' \<and> dll s' list xs' \<and> list_invariant s' list"
    using listRotate_dll [OF wf] dll_list_invariant by blast
next
  assume "dll s other ys \<and> list \<noteq> other \<and> fst ` set xs \<inter> fst ` set ys = {}"
  then have "dll s other ys" "list \<noteq> other" "fst ` set xs \<inter> fst ` set ys = {}"
    by simp_all
  from listJoin_dll [OF wf this] show "\<exists>s'. listJoin list other s = Some s' \<and>
           dll s' list (xs @ ys) \<and> list_invariant s' list \<and>
           dll s' other [] \<and> list_invariant s' other"
    using dll_list_invariant by blast
next
  show "\<exists>s'. listEmpty list s = Some s' \<and> dll s' list [] \<and> list_invariant s' list"
    using listEmpty_dll [OF wf] dll_list_invariant by blast
qed

theorem operations_preserve_invariant_witness:
  "dll (heap_join [300, 15, 16]) 100 [(11, 1), (12, 2)] \<and>
   fresh_results (heap_join [300, 15, 16]) \<and>
   dll (heap_join [300, 15, 16]) 200 [(13, 3), (14, 4)] \<and>
   (\<exists>r s'. listAddNodeHead 100 9 (heap_join [300, 15, 16]) = Some (r, s') \<and>
      list_invariant s' 100) \<and>
   (\<exists>r s'. listAddNodeTail 100 9 (heap_join [300, 15, 16]) = Some (r, s') \<and>
      list_invariant s' 100) \<and>
   (\<exists>r s'. listInsertNode 100 11 9 1 (heap_join [300, 15, 16]) = Some (r, s') \<and>
      list_invariant s' 100) \<and>
   (\<exists>r s'. listDup 100 (heap_join [300, 15, 16]) = Some (r, s') \<and>
      list_invariant s' 100 \<and> (r \<noteq> NULL \<longrightarrow> list_invariant s' r)) \<and>
   (\<exists>s'. listDelNode 100 12 (heap_join [300, 15, 16]) = Some s' \<and> list_invariant s' 100) \<and>
   (\<exists>s'. listRotate 100 (heap_join [300, 15, 16]) = Some s' \<and> list_invariant s' 100) \<and>
   (\<exists>s'. listJoin 100 200 (heap_join [300, 15, 16]) = Some s' \<and>
      list_invariant s' 100 \<and> list_invariant s' 200) \<and>
   (\<exists>s'. listEmpty 100 (heap_join [300, 15, 16]) = Some s' \<and> list_invariant s' 100)"
proof -
  let ?h = "heap_join [300, 15, 16]"
  let ?xs = "[(11 :: ptr, 1 :: ptr), (12, 2)]" and ?ys = "[(13 :: ptr, 3 :: ptr), (14, 4)]"
  have wf: "dll ?h 100 ?xs" "dll ?h 200 ?ys"
    by (simp_all add: dll_def heap_join_def list_at_def)
  have fresh: "fresh_results ?h"
    by (simp add: fresh_results_def heap_join_def)
  have mem: "11 \<in> fst ` set ?xs" "12 \<in> fst ` set ?xs"
    by simp_all
  have sep: "dll ?h 200 ?ys \<and> (100 :: ptr) \<noteq> 200 \<and> fst ` set ?xs \<inter> fst ` set ?ys = {}"
    using wf(2) by simp
  note inst = operations_preserve_invariant [OF wf(1), of 9 11 1 12 200 ?ys]
  show ?thesis
    using wf fresh mem sep inst by blast
qed

text \<open>
  C2. When \<open>zmalloc\<close> returns the null pointer, \<open>listCreate\<close>, \<open>listAddNodeHead\<close>,
  \<open>listAddNodeTail\<close>, \<open>listInsertNode\<close>, \<open>listGetIterator\<close> and \<open>listDup\<close> return
  the null pointer and every list record and node on the heap is as before. When
  \<open>listDup\<close> on a well-formed source returns the null pointer at any later point, the
  nodes and list records are again exactly those from before the call: the copy built so
  far has been released and the source is untouched.
\<close>

theorem allocation_failure_keeps_lists:
  "(zmalloc_results s = [] \<or> (\<exists>rest. zmalloc_results s = NULL # rest) \<longrightarrow>
      (\<exists>s'. listCreate s = Some (NULL, s') \<and>
         nodes s' = nodes s \<and> lists s' = lists s \<and> world s' = world s) \<and>
      (\<exists>s'. listAddNodeHead list v s = Some (NULL, s') \<and>
         nodes s' = nodes s \<and> lists s' = lists s \<and> world s' = world s) \<and>
      (\<exists>s'. listAddNodeTail list v s = Some (NULL, s') \<and>
         nodes s' = nodes s \<and> lists s' = lists s \<and> world s' = world s) \<and>
      (\<exists>s'. listInsertNode list old_node v after s = Some (NULL, s') \<and>
         nodes s' = nodes s \<and> lists s' = lists s \<and> world s' = world s) \<and>
      (\<exists>s'. listGetIterator list dir s = Some (None, s') \<and>
         nodes s' = nodes s \<and> lists s' = lists s \<and> world s' = world s) \<and>
      (\<exists>s'. listDup list s = Some (NULL, s') \<and>
         nodes s' = nodes s \<and> lists s' = lists s \<and> world s' = world s)) \<and>
   (dll s list xs \<and> fresh_results s \<longrightarrow>
      (\<exists>r s'. listDup list s = Some (r, s') \<and>
         (r = NULL \<longrightarrow> nodes s' = nodes s \<and> lists s' = lists s)))"
proof (intro conjI impI)
  assume fail: "zmalloc_results s = [] \<or> (\<exists>rest. zmalloc_results s = NULL # rest)"
  show "\<exists>s'. listCreate s = Some (NULL, s') \<and>
         nodes s' = nodes s \<and> lists s' = lists s \<and> world s' = world s"
    using fail by (auto simp: listCreate_def zmalloc_def)
  show "\<exists>s'. listAddNodeHead list v s = Some (NULL, s') \<and>
         nodes s' = nodes s \<and> lists s' = lists s \<and> world s' = world s"
    using fail by (auto simp: listAddNodeHead_def zmalloc_def)
  show "\<exists>s'. listAddNodeTail list v s = Some (NULL, s') \<and>
         nodes s' = nodes s \<and> lists s' = lists s \<and> world s' = world s"
    using fail by (auto simp: listAddNodeTail_def zmalloc_def)
  show "\<exists>s'. listInsertNode list old_node v after s = Some (NULL, s') \<and>
         nodes s' = nodes s \<and> lists s' = lists s \<and> world s' = world s"
    using fail by (auto simp: listInsertNode_def zmalloc_def)
  show "\<exists>s'. listGetIterator list dir s = Some (None, s') \<and>
         nodes s' = nodes s \<and> lists s' = lists s \<and> world s' = world s"
    using fail by (auto simp: listGetIterator_def zmalloc_def)
  show "\<exists>s'. listDup list s = Some (NULL, s') \<and>
         nodes s' = nodes s \<and> lists s' = lists s \<and> world s' = world s"
    using fail by (auto simp: listDup_def listCreate_def zmalloc_def)
next
  assume "dll s list xs \<and> fresh_results s"
  then have "dll s list xs" "fresh_results s" by simp_all
  from listDup_run [OF this] show "\<exists>r s'. listDup list s = Some (r, s') \<and>
         (r = NULL \<longrightarrow> nodes s' = nodes s \<and> lists s' = lists s)"
  proof (elim exE conjE)
    fix r s'
    assume "listDup list s = Some (r, s')"
      and "r = NULL \<longrightarrow> lists s' = lists s \<and> nodes s' = nodes s"
    then show ?thesis
      by (intro exI [of _ r] exI [of _ s']) simp
  qed
qed

theorem allocation_failure_keeps_lists_witness:
  "(\<exists>s'. listAddNodeTail 100 40 (heap_hooks dup_copy []) = Some (NULL, s') \<and>
      nodes s' = nodes (heap_hooks dup_copy []) \<and> lists s' = lists (heap_hooks dup_copy [])) \<and>
   (\<exists>s'. listDup 100 (heap_hooks dup_copy [NULL]) = Some (NULL, s') \<and>
      nodes s' = nodes (heap_hooks dup_copy [NULL]) \<and>
      lists s' = lists (heap_hooks dup_copy [NULL])) \<and>
   dll (heap_hooks dup_fail_20 [200, 4, 5]) 100 [(1, 10), (2, 20), (3, 30)] \<and>
   fresh_results (heap_hooks dup_fail_20 [200, 4, 5]) \<and>
   (\<exists>s'. listDup 100 (heap_hooks dup_fail_20 [200, 4, 5]) = Some (NULL, s') \<and>
      nodes s' = nodes (heap_hooks dup_fail_20 [200, 4, 5]) \<and>
      lists s' = lists (heap_hooks dup_fail_20 [200, 4, 5]) \<and> world s' = [1010]) \<and>
   dll (heap_hooks dup_copy [200, 4, NULL]) 100 [(1, 10), (2, 20), (3, 30)] \<and>
   fresh_results (heap_hooks dup_copy [200, 4, NULL]) \<and>
   (\<exists>s'. listDup 100 (heap_hooks dup_copy [200, 4, NULL]) = Some (NULL, s') \<and>
      nodes s' = nodes (heap_hooks dup_copy [200, 4, NULL]) \<and>
      lists s' = lists (heap_hooks dup_copy [200, 4, NULL]) \<and> world s' = [1010])"
proof -
  let ?a = "heap_hooks dup_copy []" and ?b = "heap_hooks dup_copy [NULL]"
  let ?c = "heap_hooks dup_fail_20 [200, 4, 5]" and ?d = "heap_hooks dup_copy [200, 4, NULL]"
  let ?xs = "[(1 :: ptr, 10 :: ptr), (2, 20), (3, 30)]"
  have fa: "zmalloc_results ?a = [] \<or> (\<exists>rest. zmalloc_results ?a = NULL # rest)"
    and fb: "zmalloc_results ?b = [] \<or> (\<exists>rest. zmalloc_results ?b = NULL # rest)"
    by (simp_all add: heap_hooks_def)
  have wf: "dll ?c 100 ?xs" "dll ?d 100 ?xs"
    by (simp_all add: dll_def heap_hooks_def list_at_def)
  have fresh: "fresh_results ?c" "fresh_results ?d"
    by (simp_all add: fresh_results_def heap_hooks_def)
  have runc: "\<exists>s'. listDup 100 ?c = Some (NULL, s') \<and> world s' = [1010]"
    by (simp add: run_defs heap_hooks_def)
  have rund: "\<exists>s'. listDup 100 ?d = Some (NULL, s') \<and> world s' = [1010]"
    by (simp add: run_defs heap_hooks_def)
  have c: "\<exists>s'. listDup 100 ?c = Some (NULL, s') \<and> nodes s' = nodes ?c \<and>
      lists s' = lists ?c \<and> world s' = [1010]"
    using allocation_failure_keeps_lists [of ?c 100 undefined undefined undefined undefined ?xs]
      wf(1) fresh(1) runc by auto
  have d: "\<exists>s'. listDup 100 ?d = Some (NULL, s') \<and> nodes s' = nodes ?d \<and>
      lists s' = lists ?d \<and> world s' = [1010]"
    using allocation_failure_keeps_lists [of ?d 100 undefined undefined undefined undefined ?xs]
      wf(2) fresh(2) rund by auto
  have a: "\<exists>s'. listAddNodeTail 100 40 ?a = Some (NULL, s') \<and> nodes s' = nodes ?a \<and>
      lists s' = lists ?a"
    using allocation_failure_keeps_lists [of ?a 100 40 undefined undefined undefined ?xs] fa
    by blast
  have b: "\<exists>s'. listDup 100 ?b = Some (NULL, s') \<and> nodes s' = nodes ?b \<and>
      lists s' = lists ?b"
    using allocation_failure_keeps_lists [of ?b 100 undefined undefined undefined undefined ?xs] fb
    by blast
  show ?thesis
    using a b c d wf fresh by (intro conjI) assumption+
qed

text \<open>
  C3. For two well-formed lists with separate list records and no node in common,
  \<open>listJoin l other\<close> leaves \<open>l\<close> with its own nodes followed by those of \<open>other\<close>,
  in order, its length the sum of the two lengths, and leaves \<open>other\<close> a well-formed
  empty list: head and tail null, length 0.
\<close>

theorem listJoin_appends:
  assumes "dll s l xs" and "dll s other ys"
    and "l \<noteq> other" and "fst ` set xs \<inter> fst ` set ys = {}"
  shows "\<exists>s' ll ol. listJoin l other s = Some s' \<and>
           dll s' l (xs @ ys) \<and> dll s' other [] \<and>
           lists s' l = Some ll \<and> unat (len ll) = length xs + length ys \<and>
           lists s' other = Some ol \<and> head ol = NULL \<and> tail ol = NULL \<and> len ol = 0"
proof -
  from listJoin_dll [OF assms] obtain s' where s': "listJoin l other s = Some s'"
    "dll s' l (xs @ ys)" "dll s' other []"
    by blast
  from s'(2) obtain ll where "lists s' l = Some ll" "unat (len ll) = length (xs @ ys)"
    by (rule dll_D)
  moreover from s'(3) obtain ol where "lists s' other = Some ol" "head ol = first_or NULL []"
    "tail ol = last_or NULL []" "unat (len ol) = length ([] :: (ptr \<times> ptr) list)"
    by (rule dll_D)
  ultimately show ?thesis
    using s' by (simp add: unat_eq_0)
qed

theorem listJoin_appends_witness:
  "dll (heap_join []) 100 [(11, 1), (12, 2)] \<and> dll (heap_join []) 200 [(13, 3), (14, 4)] \<and>
   (\<exists>s' ll. listJoin 100 200 (heap_join []) = Some s' \<and>
      dll s' 100 [(11, 1), (12, 2), (13, 3), (14, 4)] \<and> dll s' 200 [] \<and>
      lists s' 100 = Some ll \<and> len ll = 4)"
proof -
  have wf: "dll (heap_join []) 100 [(11, 1), (12, 2)]" "dll (heap_join []) 200 [(13, 3), (14, 4)]"
    by (simp_all add: dll_def heap_join_def list_at_def)
  have sep: "(100 :: ptr) \<noteq> 200"
    "fst ` set [(11 :: ptr, 1 :: ptr), (12, 2)] \<inter> fst ` set [(13 :: ptr, 3 :: ptr), (14, 4)] = {}"
    by simp_all
  from listJoin_appends [OF wf sep] obtain s' ll where
    "listJoin 100 200 (heap_join []) = Some s'" "dll s' 100 ([(11, 1), (12, 2)] @ [(13, 3), (14, 4)])"
    "dll s' 200 []" "lists s' 100 = Some ll"
    "unat (len ll) = length [(11 :: ptr, 1 :: ptr), (12, 2)] + length [(13 :: ptr, 3 :: ptr), (14, 4)]"
    by blast
  moreover from this(5) have "len ll = 4"
    by (simp add: word_unat_eq_iff)
  ultimately show ?thesis
    using wf by simp
qed

text \<open>
  C4. \<open>listRotate\<close> on a well-formed list makes the tail node the new head and keeps
  the order of the other nodes; on a list of length 0 or 1 it changes nothing.
\<close>

theorem listRotate_tail_to_head:
  assumes "dll s list xs"
  shows "\<exists>s'. listRotate list s = Some s' \<and>
           dll s' list (if length xs \<le> 1 then xs else last xs # butlast xs) \<and>
           (length xs \<le> 1 \<longrightarrow> s' = s)"
  using listRotate_dll [OF assms] by blast

theorem listRotate_tail_to_head_witness:
  "dll heap_abc 100 [(1, 10), (2, 20), (3, 30)] \<and>
   (\<exists>s'. listRotate 100 heap_abc = Some s' \<and> dll s' 100 [(3, 30), (1, 10), (2, 20)])"
proof -
  have wf: "dll heap_abc 100 [(1, 10), (2, 20), (3, 30)]"
    by (simp add: dll_def heap_abc_def list_at_def)
  show ?thesis
    using wf listRotate_tail_to_head [OF wf] by simp
qed

text \<open>
  C5. On a well-formed list of \<open>n\<close> nodes, \<open>listIndex\<close> returns the node at position
  \<open>index\<close> when \<open>0 \<le> index \<le> n - 1\<close>, the node at position \<open>n + index\<close> when
  \<open>- n \<le> index \<le> - 1\<close>, and the null pointer exactly when \<open>index\<close> lies outside
  \<open>[- n, n - 1]\<close>.
\<close>

theorem listIndex_position:
  assumes "dll s list xs"
  shows "listIndex list index s =
           Some (if 0 \<le> sint index \<and> sint index < int (length xs)
                   then fst (xs ! nat (sint index))
                 else if - int (length xs) \<le> sint index \<and> sint index < 0
                   then fst (xs ! nat (int (length xs) + sint index))
                 else NULL) \<and>
         (listIndex list index s = Some NULL) =
           (sint index < - int (length xs) \<or> int (length xs) \<le> sint index)"
proof -
  from assms obtain l where l: "list \<noteq> NULL" "lists s list = Some l"
    "head l = first_or NULL xs" "tail l = last_or NULL xs"
    "dlseg (nodes s) NULL xs NULL"
    by (rule dll_D)
  have nn: "\<And>i. i < length xs \<Longrightarrow> fst (xs ! i) \<noteq> NULL"
    using dlseg_nonnull [OF l(5)] by (metis image_eqI nth_mem)
  show ?thesis
  proof (cases "index <s 0")
    case True
    then have neg: "sint index < 0" by (simp add: word_sless_alt)
    have steps: "int (unat ((- index) - 1)) = - sint index - 1"
      using True by (rule neg_index_steps)
    have run: "listIndex list index s =
        Some (if unat ((- index) - 1) < length xs then fst (rev xs ! unat ((- index) - 1))
              else NULL)"
      using True l(1,2,4) listIndex_prev_dlseg [OF l(5)]
      by (simp add: listIndex_def list_at_def)
    show ?thesis
    proof (cases "unat ((- index) - 1) < length xs")
      case True
      then have pos: "length xs - Suc (unat ((- index) - 1)) = nat (int (length xs) + sint index)"
        using steps by linarith
      have "- int (length xs) \<le> sint index"
        using True steps by linarith
      moreover have "nat (int (length xs) + sint index) < length xs"
        using neg True by linarith
      ultimately show ?thesis
        using True neg run pos nn by (simp add: rev_nth)
    next
      case False
      then have "sint index < - int (length xs)"
        using steps by linarith
      then show ?thesis
        using False neg run by simp
    qed
  next
    case False
    then have pos: "0 \<le> sint index" by (simp add: word_sless_alt)
    have steps: "int (unat index) = sint index"
      using False by (rule nonneg_index_steps)
    have run: "listIndex list index s =
        Some (if unat index < length xs then fst (xs ! unat index) else NULL)"
      using False l(1,2,3) listIndex_next_dlseg [OF l(5)]
      by (simp add: listIndex_def list_at_def)
    have n: "nat (sint index) = unat index"
      using steps by linarith
    show ?thesis
    proof (cases "unat index < length xs")
      case True
      then have "sint index < int (length xs)" using steps by linarith
      then show ?thesis using True pos run n nn by simp
    next
      case False
      then have "int (length xs) \<le> sint index" using steps by linarith
      then show ?thesis using False pos run by simp
    qed
  qed
qed

theorem listIndex_position_witness:
  "dll heap_abc 100 [(1, 10), (2, 20), (3, 30)] \<and>
   listIndex 100 0 heap_abc = Some 1 \<and> listIndex 100 (- 1) heap_abc = Some 3 \<and>
   listIndex 100 3 heap_abc = Some NULL \<and> listIndex 100 (- 4) heap_abc = Some NULL"
proof -
  have wf: "dll heap_abc 100 [(1, 10), (2, 20), (3, 30)]"
    by (simp add: dll_def heap_abc_def list_at_def)
  show ?thesis
    using wf listIndex_position [OF wf, of 0] listIndex_position [OF wf, of "- 1"]
      listIndex_position [OF wf, of 3] listIndex_position [OF wf, of "- 4"]
    by simp
qed

text \<open>
  C6. On a well-formed source list, with \<open>zmalloc\<close> returning unused addresses,
  \<open>listDup\<close> always returns. The list record of the source and all its nodes are the
  same afterwards, whether the result is null or not. A non-null result is a new list
  record with the hooks of the source, heading a well-formed list of new nodes, as many
  as the source has; without a \<open>dup\<close> hook its values are the source's values, with
  one they are the non-null results of the hook on the source's values, position by
  position.
\<close>

theorem listDup_copy:
  assumes "dll s orig xs" and "fresh_results s"
  shows "\<exists>r s' l. listDup orig s = Some (r, s') \<and>
           lists s orig = Some l \<and> lists s' orig = Some l \<and>
           (\<forall>q \<in> fst ` set xs. nodes s' q = nodes s q) \<and> dll s' orig xs \<and>
           (r \<noteq> NULL \<longrightarrow>
              (\<exists>c zs. lists s r = None \<and> lists s' r = Some c \<and>
                 dup c = dup l \<and> free c = free l \<and> match c = match l \<and>
                 dll s' r zs \<and> fst ` set zs \<inter> fst ` set xs = {} \<and>
                 length zs = length xs \<and> unat (len c) = unat (len l) \<and>
                 dup_values (dup l) (map snd xs) (world s) = Some (map snd zs, world s') \<and>
                 (dup l = None \<longrightarrow> map snd zs = map snd xs) \<and>
                 (\<forall>f. dup l = Some f \<longrightarrow>
                    (\<forall>i < length xs. \<exists>u u'. f (snd (xs ! i)) u = (snd (zs ! i), u')))))"
  using listDup_run [OF assms]
proof (elim exE conjE)
  fix r s' l
  assume run: "listDup orig s = Some (r, s')" "dll s' orig xs" "lists s orig = Some l"
    "lists s' orig = Some l" "\<forall>q. nodes s q \<noteq> None \<longrightarrow> nodes s' q = nodes s q"
  assume succ: "r \<noteq> NULL \<longrightarrow>
       r = hd (zmalloc_results s) \<and> lists s r = None \<and>
       (\<forall>q. q \<noteq> r \<longrightarrow> lists s' q = lists s q) \<and>
       map_option hooks (lists s' r) = Some (hooks l) \<and>
       (\<exists>zs. dll s' r zs \<and> fst ` set zs \<inter> fst ` set xs = {} \<and>
          (\<forall>q \<in> fst ` set zs. nodes s q = None) \<and>
          dup_values (dup l) (map snd xs) (world s) = Some (map snd zs, world s'))"
  have src: "\<forall>q \<in> fst ` set xs. nodes s' q = nodes s q"
    using run(5) dll_allocated [OF assms(1)] by blast
  have lenl: "unat (len l) = length xs"
    using assms(1) run(3) by (auto elim: dll_D)
  have new: "\<exists>c zs. lists s r = None \<and> lists s' r = Some c \<and>
                 dup c = dup l \<and> free c = free l \<and> match c = match l \<and>
                 dll s' r zs \<and> fst ` set zs \<inter> fst ` set xs = {} \<and>
                 length zs = length xs \<and> unat (len c) = unat (len l) \<and>
                 dup_values (dup l) (map snd xs) (world s) = Some (map snd zs, world s') \<and>
                 (dup l = None \<longrightarrow> map snd zs = map snd xs) \<and>
                 (\<forall>f. dup l = Some f \<longrightarrow>
                    (\<forall>i < length xs. \<exists>u u'. f (snd (xs ! i)) u = (snd (zs ! i), u')))"
    if "r \<noteq> NULL"
  proof -
    note all = succ [rule_format, OF that]
    from all obtain zs where zs: "lists s r = None"
      "map_option hooks (lists s' r) = Some (hooks l)" "dll s' r zs"
      "fst ` set zs \<inter> fst ` set xs = {}"
      "dup_values (dup l) (map snd xs) (world s) = Some (map snd zs, world s')"
      by (elim exE conjE) (rule that; assumption)
    from zs(3) obtain c where c: "lists s' r = Some c" "unat (len c) = length zs"
      by (rule dll_D)
    have hk: "dup c = dup l" "free c = free l" "match c = match l"
      using zs(2) c(1) by (simp_all add: hooks_def)
    have len: "length zs = length xs"
      using dup_values_length [OF zs(5)] by simp
    have shallow: "map snd zs = map snd xs" if "dup l = None"
      using zs(5) that by (simp add: dup_values_None)
    have deep: "\<exists>u u'. f (snd (xs ! i)) u = (snd (zs ! i), u')"
      if "dup l = Some f" "i < length xs" for f i
      using dup_values_nth [of f "map snd xs" "world s" "map snd zs" "world s'" i] zs(5) that len
      by auto
    have deep': "\<forall>f. dup l = Some f \<longrightarrow>
        (\<forall>i < length xs. \<exists>u u'. f (snd (xs ! i)) u = (snd (zs ! i), u'))"
      using deep by blast
    have lens: "unat (len c) = unat (len l)"
      using c(2) len lenl by simp
    show ?thesis
      by (insert zs(1,3,4,5) c(1) hk len lens shallow deep', rule exI [of _ c],
          rule exI [of _ zs], intro conjI impI) assumption+
  qed
  show ?thesis
    by (insert run(1,2,3,4) src, rule exI [of _ r], rule exI [of _ s'], rule exI [of _ l],
        intro conjI impI new) assumption+
qed

theorem listDup_copy_witness:
  "dll (heap_hooks dup_copy [200, 4, 5, 6]) 100 [(1, 10), (2, 20), (3, 30)] \<and>
   fresh_results (heap_hooks dup_copy [200, 4, 5, 6]) \<and>
   (\<exists>s' c. listDup 100 (heap_hooks dup_copy [200, 4, 5, 6]) = Some (200, s') \<and>
      dll s' 100 [(1, 10), (2, 20), (3, 30)] \<and>
      dll s' 200 [(4, 1010), (5, 1020), (6, 1030)] \<and>
      lists s' 200 = Some c \<and> len c = 3 \<and>
      dup c = Some dup_copy \<and> free c = Some free_log \<and> match c = Some match_eq)"
proof -
  let ?h = "heap_hooks dup_copy [200, 4, 5, 6]"
  have wf: "dll ?h 100 [(1, 10), (2, 20), (3, 30)]"
    by (simp add: dll_def heap_hooks_def list_at_def)
  have fresh: "fresh_results ?h"
    by (simp add: fresh_results_def heap_hooks_def)
  have run: "\<exists>s'. listDup 100 ?h = Some (200, s') \<and>
      dll s' 200 [(4, 1010), (5, 1020), (6, 1030)]"
    by (simp add: run_defs heap_hooks_def dll_def)
  have src: "lists ?h 100 = Some \<lparr>head = 1, tail = 3, dup = Some dup_copy,
      free = Some free_log, match = Some match_eq, len = 3\<rparr>"
    by (simp add: heap_hooks_def)
  from listDup_copy [OF wf fresh] show ?thesis
  proof (elim exE conjE)
    fix r s' l
    assume r: "listDup 100 ?h = Some (r, s')" "lists ?h 100 = Some l" "dll s' 100 [(1, 10), (2, 20), (3, 30)]"
    assume new: "r \<noteq> NULL \<longrightarrow>
           (\<exists>c zs. lists ?h r = None \<and> lists s' r = Some c \<and>
              dup c = dup l \<and> free c = free l \<and> match c = match l \<and>
              dll s' r zs \<and> fst ` set zs \<inter> fst ` set [(1 :: ptr, 10 :: ptr), (2, 20), (3, 30)] = {} \<and>
              length zs = length [(1 :: ptr, 10 :: ptr), (2, 20), (3, 30)] \<and> unat (len c) = unat (len l) \<and>
              dup_values (dup l) (map snd [(1 :: ptr, 10 :: ptr), (2, 20), (3, 30)]) (world ?h) = Some (map snd zs, world s') \<and>
              (dup l = None \<longrightarrow> map snd zs = map snd [(1 :: ptr, 10 :: ptr), (2, 20), (3, 30)]) \<and>
              (\<forall>f. dup l = Some f \<longrightarrow>
                 (\<forall>i < length [(1 :: ptr, 10 :: ptr), (2, 20), (3, 30)]. \<exists>u u'. f (snd ([(1 :: ptr, 10 :: ptr), (2, 20), (3, 30)] ! i)) u = (snd (zs ! i), u'))))"
    from run r(1) have r200: "r = 200" and copy: "dll s' 200 [(4, 1010), (5, 1020), (6, 1030)]"
      by auto
    from new r200 obtain c where c: "lists s' 200 = Some c" "dup c = dup l" "free c = free l"
      "match c = match l" "unat (len c) = unat (len l)"
      by auto
    have l: "l = \<lparr>head = 1, tail = 3, dup = Some dup_copy,
      free = Some free_log, match = Some match_eq, len = 3\<rparr>"
      using src r(2) by simp
    have "len c = 3"
      using c(5) l by (simp add: word_unat_eq_iff)
    then show ?thesis
      using wf fresh r(1,3) r200 copy c l by simp
  qed
qed

text \<open>
  C7. On a well-formed list, when \<open>zmalloc\<close> returns a fresh node: \<open>listInsertNode\<close>
  after the current tail makes the new node the tail, and \<open>listInsertNode\<close> before
  the current head makes it the head. In both cases the length grows by one and the
  new node is linked directly after, respectively before, \<open>old_node\<close>.
\<close>

theorem listInsertNode_boundary:
  assumes "dll s list xs"
    and "zmalloc_results s = node # rest" and "node \<noteq> NULL" and "nodes s node = None"
  shows "(after \<noteq> 0 \<and> xs = ys @ [(old_node, ov)] \<longrightarrow>
            (\<exists>s' l l' a b. listInsertNode list old_node v after s = Some (list, s') \<and>
               dll s' list (xs @ [(node, v)]) \<and>
               lists s list = Some l \<and> lists s' list = Some l' \<and>
               tail l = old_node \<and> tail l' = node \<and> unat (len l') = unat (len l) + 1 \<and>
               nodes s' old_node = Some a \<and> node_next a = node \<and>
               nodes s' node = Some b \<and> node_prev b = old_node \<and> node_next b = NULL \<and>
               node_value b = v)) \<and>
         (after = 0 \<and> xs = (old_node, ov) # zs \<longrightarrow>
            (\<exists>s' l l' a b. listInsertNode list old_node v after s = Some (list, s') \<and>
               dll s' list ((node, v) # xs) \<and>
               lists s list = Some l \<and> lists s' list = Some l' \<and>
               head l = old_node \<and> head l' = node \<and> unat (len l') = unat (len l) + 1 \<and>
               nodes s' old_node = Some a \<and> node_prev a = node \<and>
               nodes s' node = Some b \<and> node_next b = old_node \<and> node_prev b = NULL \<and>
               node_value b = v))"
proof (intro conjI impI; elim conjE)
  assume after: "after \<noteq> 0" and xs: "xs = ys @ [(old_node, ov)]"
  from assms(1) obtain l where l: "lists s list = Some l" "tail l = last_or NULL xs"
    "unat (len l) = length xs"
    by (rule dll_D)
  from listInsertNode_after_dll [OF assms xs after, of v]
  obtain s' where s': "listInsertNode list old_node v after s = Some (list, s')"
    "dll s' list (ys @ (old_node, ov) # (node, v) # [])"
    by blast
  from s'(2) obtain l' where l': "lists s' list = Some l'"
    "tail l' = last_or NULL (ys @ (old_node, ov) # (node, v) # [])"
    "unat (len l') = length (ys @ (old_node, ov) # (node, v) # [])"
    "dlseg (nodes s') NULL (ys @ (old_node, ov) # (node, v) # []) NULL"
    by (rule dll_D)
  show "\<exists>s' l l' a b. listInsertNode list old_node v after s = Some (list, s') \<and>
               dll s' list (xs @ [(node, v)]) \<and>
               lists s list = Some l \<and> lists s' list = Some l' \<and>
               tail l = old_node \<and> tail l' = node \<and> unat (len l') = unat (len l) + 1 \<and>
               nodes s' old_node = Some a \<and> node_next a = node \<and>
               nodes s' node = Some b \<and> node_prev b = old_node \<and> node_next b = NULL \<and>
               node_value b = v"
    using s' l l' xs by (simp add: dlseg_append)
next
  assume after: "after = 0" and xs: "xs = (old_node, ov) # zs"
  from assms(1) obtain l where l: "lists s list = Some l" "head l = first_or NULL xs"
    "unat (len l) = length xs"
    by (rule dll_D)
  from listInsertNode_before_dll [OF assms, of "[]" old_node ov zs after v] xs after
  obtain s' where s': "listInsertNode list old_node v after s = Some (list, s')"
    "dll s' list ((node, v) # (old_node, ov) # zs)"
    by auto
  from s'(2) obtain l' where l': "lists s' list = Some l'"
    "head l' = first_or NULL ((node, v) # (old_node, ov) # zs)"
    "unat (len l') = length ((node, v) # (old_node, ov) # zs)"
    "dlseg (nodes s') NULL ((node, v) # (old_node, ov) # zs) NULL"
    by (rule dll_D)
  show "\<exists>s' l l' a b. listInsertNode list old_node v after s = Some (list, s') \<and>
               dll s' list ((node, v) # xs) \<and>
               lists s list = Some l \<and> lists s' list = Some l' \<and>
               head l = old_node \<and> head l' = node \<and> unat (len l') = unat (len l) + 1 \<and>
               nodes s' old_node = Some a \<and> node_prev a = node \<and>
               nodes s' node = Some b \<and> node_next b = old_node \<and> node_prev b = NULL \<and>
               node_value b = v"
    using s' l l' xs by simp
qed

theorem listInsertNode_boundary_witness:
  "dll heap_abc 100 [(1, 10), (2, 20), (3, 30)] \<and>
   (\<exists>s'. listInsertNode 100 3 40 1 heap_abc = Some (100, s') \<and>
      dll s' 100 [(1, 10), (2, 20), (3, 30), (4, 40)] \<and>
      map_option tail (lists s' 100) = Some 4 \<and> map_option len (lists s' 100) = Some 4) \<and>
   (\<exists>s'. listInsertNode 100 1 40 0 heap_abc = Some (100, s') \<and>
      dll s' 100 [(4, 40), (1, 10), (2, 20), (3, 30)] \<and>
      map_option head (lists s' 100) = Some 4 \<and> map_option len (lists s' 100) = Some 4)"
proof -
  have wf: "dll heap_abc 100 [(1, 10), (2, 20), (3, 30)]"
    by (simp add: dll_def heap_abc_def list_at_def)
  have res: "zmalloc_results heap_abc = 4 # [5]" "(4 :: ptr) \<noteq> NULL"
    "nodes heap_abc 4 = None"
    by (simp_all add: heap_abc_def)
  have len4: "\<And>l. unat (len l) = 4 \<Longrightarrow> len l = 4"
    by (simp add: word_unat_eq_iff)
  have len3: "map_option (\<lambda>l. unat (len l)) (lists heap_abc 100) = Some 3"
    by (simp add: heap_abc_def)
  show ?thesis
    using wf
      listInsertNode_boundary [OF wf res, of 1 "[(1, 10), (2, 20)]" 3 30 40 "[(2, 20), (3, 30)]"]
      listInsertNode_boundary [OF wf res, of 0 "[]" 1 10 40 "[(2, 20), (3, 30)]"]
      len3
    by (auto simp: len4)
qed

text \<open>
  C8. \<open>listNext\<close> returns the node at the cursor and moves the cursor to that node's
  successor when the direction is \<open>AL_START_HEAD\<close> and to its predecessor otherwise.
  With a null cursor it returns the null pointer and leaves the iterator as it is, so
  any number of further calls return null again.
\<close>

theorem listNext_cursor:
  "(iter_next iter \<noteq> NULL \<and> nodes s (iter_next iter) = Some n \<longrightarrow>
      listNext iter s =
        Some (iter_next iter,
              iter\<lparr>iter_next := (if direction iter = AL_START_HEAD then node_next n
                                   else node_prev n)\<rparr>)) \<and>
   (iter_next iter = NULL \<longrightarrow>
      listNext iter s = Some (NULL, iter) \<and>
      listNext_repeat k iter s = Some (replicate k NULL, iter))"
proof -
  have "listNext_repeat k iter s = Some (replicate k NULL, iter)" if "iter_next iter = NULL"
    using that by (induction k) (simp_all add: listNext_def)
  then show ?thesis
    by (simp add: listNext_def node_at_def)
qed

theorem listNext_cursor_witness:
  "listNext \<lparr>iter_next = 2, direction = AL_START_HEAD\<rparr> heap_abc
     = Some (2, \<lparr>iter_next = 3, direction = AL_START_HEAD\<rparr>) \<and>
   listNext \<lparr>iter_next = 2, direction = AL_START_TAIL\<rparr> heap_abc
     = Some (2, \<lparr>iter_next = 1, direction = AL_START_TAIL\<rparr>) \<and>
   listNext \<lparr>iter_next = NULL, direction = AL_START_HEAD\<rparr> heap_abc
     = Some (NULL, \<lparr>iter_next = NULL, direction = AL_START_HEAD\<rparr>) \<and>
   listNext_repeat 3 \<lparr>iter_next = NULL, direction = AL_START_TAIL\<rparr> heap_abc
     = Some ([NULL, NULL, NULL], \<lparr>iter_next = NULL, direction = AL_START_TAIL\<rparr>)"
  using
    listNext_cursor [of "\<lparr>iter_next = 2, direction = AL_START_HEAD\<rparr>" heap_abc
      "\<lparr>node_prev = 1, node_next = 3, node_value = 20\<rparr>" 0]
    listNext_cursor [of "\<lparr>iter_next = 2, direction = AL_START_TAIL\<rparr>" heap_abc
      "\<lparr>node_prev = 1, node_next = 3, node_value = 20\<rparr>" 0]
    listNext_cursor [of "\<lparr>iter_next = NULL, direction = AL_START_HEAD\<rparr>" heap_abc
      "\<lparr>node_prev = 1, node_next = 3, node_value = 20\<rparr>" 0]
    listNext_cursor [of "\<lparr>iter_next = NULL, direction = AL_START_TAIL\<rparr>" heap_abc
      "\<lparr>node_prev = 1, node_next = 3, node_value = 20\<rparr>" 3]
  by (simp add: heap_abc_def AL_START_HEAD_def AL_START_TAIL_def numeral_3_eq_3)

text \<open>
  C9. On a well-formed list, the traversal with an iterator got for \<open>AL_START_HEAD\<close>
  visits the nodes from head to tail and the traversal with an iterator got for
  \<open>AL_START_TAIL\<close> visits them from tail to head: the values seen forward are the
  reverse of the values seen backward, and the same multiset. Both traversals are over
  within \<open>length xs + 1\<close> calls of \<open>listNext\<close>.
\<close>

theorem traversal_forward_backward:
  assumes "dll s list xs"
    and "zmalloc_results s = a # b # rest" and "a \<noteq> NULL" and "b \<noteq> NULL"
    and "length xs < k"
  shows "\<exists>fw bw s1 s2 vs ws.
           listGetIterator list AL_START_HEAD s = Some (Some fw, s1) \<and>
           listGetIterator list AL_START_TAIL s1 = Some (Some bw, s2) \<and>
           listVisit k fw s2 = Some vs \<and> listVisit k bw s2 = Some ws \<and>
           vs = xs \<and> ws = rev xs \<and>
           map snd vs = rev (map snd ws) \<and> mset (map snd vs) = mset (map snd ws)"
proof -
  from assms(1) obtain l where l: "list \<noteq> NULL" "lists s list = Some l"
    "head l = first_or NULL xs" "tail l = last_or NULL xs" "dlseg (nodes s) NULL xs NULL"
    by (rule dll_D)
  define s1 where "s1 = s\<lparr>zmalloc_results := b # rest\<rparr>"
  define s2 where "s2 = s\<lparr>zmalloc_results := rest\<rparr>"
  have g1: "listGetIterator list AL_START_HEAD s
      = Some (Some \<lparr>iter_next = first_or NULL xs, direction = AL_START_HEAD\<rparr>, s1)"
    using l assms(2,3) by (simp add: listGetIterator_def exec_defs s1_def)
  have g2: "listGetIterator list AL_START_TAIL s1
      = Some (Some \<lparr>iter_next = last_or NULL xs, direction = AL_START_TAIL\<rparr>, s2)"
    using l assms(4)
    by (simp add: listGetIterator_def exec_defs s1_def s2_def AL_START_HEAD_def
          AL_START_TAIL_def)
  have seg: "dlseg (nodes s2) NULL xs NULL"
    using l(5) by (simp add: s2_def)
  show ?thesis
    using g1 g2 listVisit_forward [OF seg assms(5)] listVisit_backward [OF seg assms(5)]
    by (simp add: rev_map)
qed

theorem traversal_forward_backward_witness:
  "dll heap_abc 100 [(1, 10), (2, 20), (3, 30)] \<and>
   (\<exists>fw bw s1 s2.
      listGetIterator 100 AL_START_HEAD heap_abc = Some (Some fw, s1) \<and>
      listGetIterator 100 AL_START_TAIL s1 = Some (Some bw, s2) \<and>
      listVisit 4 fw s2 = Some [(1, 10), (2, 20), (3, 30)] \<and>
      listVisit 4 bw s2 = Some [(3, 30), (2, 20), (1, 10)])"
proof -
  have wf: "dll heap_abc 100 [(1, 10), (2, 20), (3, 30)]"
    by (simp add: dll_def heap_abc_def list_at_def)
  have res: "zmalloc_results heap_abc = 4 # 5 # []" "(4 :: ptr) \<noteq> NULL" "(5 :: ptr) \<noteq> NULL"
    "length [(1 :: ptr, 10 :: ptr), (2, 20), (3, 30)] < 4"
    by (simp_all add: heap_abc_def)
  show ?thesis
    using wf traversal_forward_backward [OF wf res]
    by simp
qed

text \<open>
  C10. \<open>listEmpty\<close> on a well-formed list sets head and tail to null and the length to
  0 and leaves the \<open>dup\<close>, \<open>free\<close> and \<open>match\<close> hooks of the list record as they
  were; a node then added to the emptied list (at an unused address or at that of a node
  just freed) and deleted again is destroyed with the hook set before.
\<close>

theorem listEmpty_keeps_hooks:
  assumes "dll s list xs"
    and "zmalloc_results s = node # rest" and "node \<noteq> NULL"
    and "nodes s node = None \<or> node \<in> fst ` set xs"
  shows "\<exists>s1 l l1 s2 s3. listEmpty list s = Some s1 \<and>
           lists s list = Some l \<and> lists s1 list = Some l1 \<and>
           head l1 = NULL \<and> tail l1 = NULL \<and> len l1 = 0 \<and>
           dup l1 = dup l \<and> free l1 = free l \<and> match l1 = match l \<and>
           listAddNodeTail list v s1 = Some (list, s2) \<and>
           listDelNode list node s2 = Some s3 \<and>
           world s3 = free_world l v (world s1)"
proof -
  from listEmpty_dll [OF assms(1)] obtain s1 l where s1: "listEmpty list s = Some s1"
    "dll s1 list []" "lists s list = Some l"
    "lists s1 = (lists s)(list \<mapsto> l\<lparr>head := NULL, tail := NULL, len := 0\<rparr>)"
    "nodes s1 = (\<lambda>q. if q \<in> fst ` set xs then None else nodes s q)"
    "zmalloc_results s1 = zmalloc_results s"
    by blast
  have fresh: "nodes s1 node = None"
    using s1(5) assms(4) by auto
  from listAddNodeTail_dll [OF s1(2) _ assms(3) fresh, of rest v] s1(6) assms(2)
  obtain s2 where s2: "listAddNodeTail list v s1 = Some (list, s2)"
    "dll s2 list ([] @ [(node, v)])"
    "map_option hooks (lists s2 list) = map_option hooks (lists s1 list)"
    by auto
  from s2(2) obtain l2 where l2: "lists s2 list = Some l2" by (rule dll_D)
  have free2: "free l2 = free l"
    using s2(3) l2 s1(4) by (simp add: hooks_def)
  from listDelNode_dll [OF s2(2), of "[]" node v "[]"] l2
  obtain s3 where s3: "listDelNode list node s2 = Some s3"
    "world s3 = free_world l2 v (world s2)"
    by auto
  have "world s2 = world s1"
    using listAddNodeTail_dll [OF s1(2) _ assms(3) fresh, of rest v] s1(6) assms(2) s2(1)
    by auto
  then show ?thesis
    using s1 s2(1) s3 free2 by (simp add: free_world_def)
qed

theorem listEmpty_keeps_hooks_witness:
  "dll (heap_hooks dup_copy [4]) 100 [(1, 10), (2, 20), (3, 30)] \<and>
   (\<exists>s1 l1 s2 s3. listEmpty 100 (heap_hooks dup_copy [4]) = Some s1 \<and>
      lists s1 100 = Some l1 \<and> head l1 = NULL \<and> tail l1 = NULL \<and> len l1 = 0 \<and>
      dup l1 = Some dup_copy \<and> free l1 = Some free_log \<and> match l1 = Some match_eq \<and>
      listAddNodeTail 100 40 s1 = Some (100, s2) \<and> listDelNode 100 4 s2 = Some s3 \<and>
      world s3 = free_log 40 (world s1))"
proof -
  have wf: "dll (heap_hooks dup_copy [4]) 100 [(1, 10), (2, 20), (3, 30)]"
    by (simp add: dll_def heap_hooks_def list_at_def)
  have res: "zmalloc_results (heap_hooks dup_copy [4]) = 4 # []" "(4 :: ptr) \<noteq> NULL"
    "nodes (heap_hooks dup_copy [4]) 4 = None \<or> 4 \<in> fst ` set [(1 :: ptr, 10 :: ptr), (2, 20), (3, 30)]"
    by (simp_all add: heap_hooks_def)
  show ?thesis
    using wf listEmpty_keeps_hooks [OF wf res, of 40]
    by (simp add: heap_hooks_def free_world_def)
qed

end
